theory Spec2Isabelle
  imports Complex_Main
begin

section \<open>Python values: errors, integer division, strings\<close>

text \<open>
  The program is Python 2: \<open>/\<close> on integers is floor division and raises
  ZeroDivisionError on a zero divisor, integers are unbounded, and \<open>math.sqrt\<close>,
  \<open>math.floor\<close> work on IEEE-754 doubles. Every exception the modelled code can raise
  is a value of \<open>pyerr\<close>; a computation returns \<open>pyerr + 'a\<close>.
\<close>

datatype pyerr = ValueError | OverflowError | ZeroDivisionError

definition py_div :: "int \<Rightarrow> int \<Rightarrow> pyerr + int" where
  "py_div x y = (if y = 0 then Inl ZeroDivisionError else Inr (x div y))"

text \<open>\<open>str(i)\<close> for an integer: decimal digits, with a minus sign when negative.\<close>

function str_digits :: "int \<Rightarrow> string" where
  "str_digits i = (if i < 10 then [''0123456789'' ! nat i]
                   else str_digits (i div 10) @ [''0123456789'' ! nat (i mod 10)])"
  by pat_completeness auto
termination
  by (relation "measure nat") auto

declare str_digits.simps [simp del]

definition str_int :: "int \<Rightarrow> string" where
  "str_int i = (if i < 0 then CHR ''-'' # str_digits (- i) else str_digits i)"

text \<open>\<open>int(s)\<close> for a string of decimal digits, as used on \<open>'1' + '0' * k\<close>.\<close>

definition digit_val :: "char \<Rightarrow> int" where
  "digit_val c = int (of_char c) - 48"

definition int_of_str :: "string \<Rightarrow> int" where
  "int_of_str s = foldl (\<lambda>acc c. 10 * acc + digit_val c) 0 s"

text \<open>\<open>c * k\<close> for a one-character string: empty when \<open>k \<le> 0\<close>.\<close>

definition str_repeat :: "char \<Rightarrow> int \<Rightarrow> string" where
  "str_repeat c k = replicate (nat k) c"

text \<open>
  The slices \<open>s[:j]\<close> and \<open>s[i:]\<close>: a negative index counts from the end, and every
  index is clamped to the string.
\<close>

definition slice_index :: "string \<Rightarrow> int \<Rightarrow> nat" where
  "slice_index s i = (if i < 0 then nat (int (length s) + i) else nat i)"

definition slice_to :: "string \<Rightarrow> int \<Rightarrow> string" where
  "slice_to s j = take (slice_index s j) s"

definition slice_from :: "string \<Rightarrow> int \<Rightarrow> string" where
  "slice_from s i = drop (slice_index s i) s"

section \<open>Doubles: conversion from integers, square root, floor\<close>

text \<open>
  A finite double is \<open>mant * 2 ^ expo\<close>. Conversion of an integer rounds to 53
  significant bits, ties to even, and raises OverflowError beyond the largest double;
  \<open>math.sqrt\<close> raises ValueError on a negative argument and otherwise returns the
  correctly rounded root (for mantissas below \<open>2 ^ 54\<close>, which is all a conversion
  produces).
\<close>

datatype double = Dbl (mant: int) (expo: int)

function bit_length :: "int \<Rightarrow> nat" where
  "bit_length i = (if i \<le> 0 then 0 else Suc (bit_length (i div 2)))"
  by pat_completeness auto
termination
  by (relation "measure nat") auto

declare bit_length.simps [simp del]

function isqrt :: "int \<Rightarrow> int" where
  "isqrt i = (if i < 2 then i
              else let r = 2 * isqrt (i div 4) in if (r + 1) * (r + 1) \<le> i then r + 1 else r)"
  by pat_completeness auto
termination
  by (relation "measure nat") auto

declare isqrt.simps [simp del]

definition float_of_int :: "int \<Rightarrow> pyerr + double" where
  "float_of_int i =
     (let v = \<bar>i\<bar> in
      if v < 2 ^ 53 then Inr (Dbl i 0)
      else let e = bit_length v - 53;
               q = v div 2 ^ e;
               r = v mod 2 ^ e;
               h = 2 ^ (e - 1);
               q' = (if h < r \<or> (r = h \<and> odd q) then q + 1 else q)
           in if 2 ^ 1024 \<le> q' * 2 ^ e then Inl OverflowError
              else Inr (Dbl (sgn i * q') (int e)))"

definition sqrt_double :: "double \<Rightarrow> pyerr + double" where
  "sqrt_double x =
     (if mant x < 0 then Inl ValueError
      else if mant x = 0 then Inr (Dbl 0 0)
      else let m2 = (if even (expo x) then mant x else 2 * mant x);
               e2 = (if even (expo x) then expo x else expo x - 1);
               s = (106 - bit_length m2) div 2;
               y = m2 * 4 ^ s;
               r = isqrt y;
               r' = (if r < y - r * r then r + 1 else r)
           in Inr (Dbl r' (e2 div 2 - int s)))"

definition math_sqrt :: "int \<Rightarrow> pyerr + double" where
  "math_sqrt i = (case float_of_int i of Inl e \<Rightarrow> Inl e | Inr x \<Rightarrow> sqrt_double x)"

definition floor_double :: "double \<Rightarrow> double" where
  "floor_double x = (if 0 \<le> expo x then x else Dbl (mant x div 2 ^ nat (- expo x)) 0)"

text \<open>\<open>int(x)\<close> for a double truncates towards zero.\<close>

definition int_of_double :: "double \<Rightarrow> int" where
  "int_of_double x =
     (if 0 \<le> expo x then mant x * 2 ^ nat (expo x)
      else if 0 \<le> mant x then mant x div 2 ^ nat (- expo x)
      else - ((- mant x) div 2 ^ nat (- expo x)))"

text \<open>Python compares a double with an integer by exact value.\<close>

definition double_eq_int :: "double \<Rightarrow> int \<Rightarrow> bool" where
  "double_eq_int x i =
     (if 0 \<le> expo x then mant x * 2 ^ nat (expo x) = i else mant x = i * 2 ^ nat (- expo x))"

text \<open>\<open>int(floor(q))\<close> for an integer \<open>q\<close>: \<open>math.floor\<close> converts its argument to a double.\<close>

definition int_floor :: "int \<Rightarrow> pyerr + int" where
  "int_floor q = (case float_of_int q of Inl e \<Rightarrow> Inl e
                  | Inr x \<Rightarrow> Inr (int_of_double (floor_double x)))"

section \<open>gcd, lcm and the class Ratio\<close>

function gcd_py :: "int \<Rightarrow> int \<Rightarrow> int" where
  "gcd_py m n = (if n = 0 then m else gcd_py n (m mod n))"
  by pat_completeness auto
termination
  by (relation "measure (\<lambda>(m, n). nat \<bar>n\<bar>)") (auto simp: abs_mod_less)

declare gcd_py.simps [simp del]

definition lcm_py :: "int \<Rightarrow> int \<Rightarrow> pyerr + int" where
  "lcm_py x y = py_div \<bar>x * y\<bar> (gcd_py x y)"

record Ratio =
  num :: int
  den :: int

text \<open>The constructor \<open>Ratio(num, den=1)\<close>.\<close>

definition Ratio_init :: "int \<Rightarrow> int \<Rightarrow> Ratio" where
  "Ratio_init p q = \<lparr>num = p, den = q\<rparr>"

definition Ratio_add :: "Ratio \<Rightarrow> Ratio \<Rightarrow> pyerr + Ratio" where
  "Ratio_add self other =
     (case lcm_py (den self) (den other) of Inl e \<Rightarrow> Inl e
      | Inr lcd \<Rightarrow>
        (case py_div (num self * lcd) (den self) of Inl e \<Rightarrow> Inl e
         | Inr x \<Rightarrow>
           (case py_div (num other * lcd) (den other) of Inl e \<Rightarrow> Inl e
            | Inr y \<Rightarrow> Inr (Ratio_init (x + y) lcd))))"

definition Ratio_sub :: "Ratio \<Rightarrow> Ratio \<Rightarrow> pyerr + Ratio" where
  "Ratio_sub self other = Ratio_add self (Ratio_init (- num other) (den other))"

definition Ratio_eq :: "Ratio \<Rightarrow> Ratio \<Rightarrow> pyerr + bool" where
  "Ratio_eq self other =
     (case lcm_py (den self) (den other) of Inl e \<Rightarrow> Inl e
      | Inr lcd \<Rightarrow>
        (case py_div (num self * lcd) (den self) of Inl e \<Rightarrow> Inl e
         | Inr x \<Rightarrow>
           (case py_div (num other * lcd) (den other) of Inl e \<Rightarrow> Inl e
            | Inr y \<Rightarrow> Inr (x = y))))"

definition Ratio_lt :: "Ratio \<Rightarrow> Ratio \<Rightarrow> pyerr + bool" where
  "Ratio_lt self other =
     (case lcm_py (den self) (den other) of Inl e \<Rightarrow> Inl e
      | Inr lcd \<Rightarrow>
        (case py_div (num self * lcd) (den self) of Inl e \<Rightarrow> Inl e
         | Inr x \<Rightarrow>
           (case py_div (num other * lcd) (den other) of Inl e \<Rightarrow> Inl e
            | Inr y \<Rightarrow> Inr (x < y))))"

definition Ratio_abs :: "Ratio \<Rightarrow> Ratio" where
  "Ratio_abs self = Ratio_init \<bar>num self\<bar> \<bar>den self\<bar>"

text \<open>\<open>rec\<close> swaps the two fields of the object; as a function on the object's value.\<close>

definition Ratio_rec :: "Ratio \<Rightarrow> Ratio" where
  "Ratio_rec self = self\<lparr>num := den self, den := num self\<rparr>"

section \<open>precSqrt\<close>

text \<open>
  The loop's variables. \<open>st_a\<close> starts as \<open>[a0]\<close> and only grows, so \<open>a[0]\<close> and
  \<open>a[-1]\<close> are \<open>hd\<close> and \<open>last\<close> of a non-empty list. \<open>st_pc\<close> is \<open>None\<close> until the end
  of the first round.
\<close>

record loop_state =
  st_m :: int
  st_d :: int
  st_a :: "int list"
  st_pc :: "Ratio option"

text \<open>
  The current approximation: \<open>c = Ratio(a[-1])\<close>, then for \<open>i\<close> from \<open>len(a) - 2\<close>
  down to \<open>0\<close>, \<open>c.rec(); c += Ratio(a[i])\<close>.
\<close>

fun fold_conv :: "int list \<Rightarrow> Ratio \<Rightarrow> pyerr + Ratio" where
  "fold_conv [] c = Inr c"
| "fold_conv (x # xs) c =
     (case Ratio_add (Ratio_rec c) (Ratio_init x 1) of Inl e \<Rightarrow> Inl e
      | Inr c' \<Rightarrow> fold_conv xs c')"

definition convergent :: "int list \<Rightarrow> pyerr + Ratio" where
  "convergent xs = fold_conv (rev (butlast xs)) (Ratio_init (last xs) 1)"

text \<open>One round up to the computation of \<open>c\<close>: the updates of \<open>m\<close>, \<open>d\<close> and \<open>a\<close>.\<close>

definition sqrt_round :: "int \<Rightarrow> loop_state \<Rightarrow> pyerr + (loop_state \<times> Ratio)" where
  "sqrt_round n s =
     (let m' = st_d s * last (st_a s) - st_m s in
      case py_div (n - m' ^ 2) (st_d s) of Inl e \<Rightarrow> Inl e
      | Inr d' \<Rightarrow>
        (case py_div (hd (st_a s) + m') d' of Inl e \<Rightarrow> Inl e
         | Inr q \<Rightarrow>
           (case int_floor q of Inl e \<Rightarrow> Inl e
            | Inr t \<Rightarrow>
              (case convergent (st_a s @ [t]) of Inl e \<Rightarrow> Inl e
               | Inr c \<Rightarrow> Inr (s\<lparr>st_m := m', st_d := d', st_a := st_a s @ [t]\<rparr>, c)))))"

text \<open>The test \<open>pc != None and abs(c - pc) < Ratio(1, int('1' + '0' * (dig + 1)))\<close>.\<close>

definition tolerance :: "int \<Rightarrow> Ratio" where
  "tolerance dig = Ratio_init 1 (int_of_str (''1'' @ str_repeat CHR ''0'' (dig + 1)))"

definition converged :: "int \<Rightarrow> Ratio \<Rightarrow> Ratio option \<Rightarrow> pyerr + bool" where
  "converged dig c pc =
     (case pc of None \<Rightarrow> Inr False
      | Some p \<Rightarrow>
        (case Ratio_sub c p of Inl e \<Rightarrow> Inl e
         | Inr df \<Rightarrow> Ratio_lt (Ratio_abs df) (tolerance dig)))"

text \<open>
  The loop \<open>while True\<close>: \<open>None\<close> is a run that never leaves it, \<open>Some (Inl e)\<close> an
  exception raised in a round, \<open>Some (Inr c)\<close> the \<open>break\<close> with the final \<open>c\<close>.
\<close>

partial_function (option) sqrt_loop :: "int \<Rightarrow> int \<Rightarrow> loop_state \<Rightarrow> (pyerr + Ratio) option" where
  "sqrt_loop n dig s =
     (case sqrt_round n s of Inl e \<Rightarrow> Some (Inl e)
      | Inr (s', c) \<Rightarrow>
        (case converged dig c (st_pc s') of Inl e \<Rightarrow> Some (Inl e)
         | Inr b \<Rightarrow>
           if b then Some (Inr c)
           else sqrt_loop n dig (s'\<lparr>st_pc := Some (Ratio_init (num c) (den c))\<rparr>)))"

declare sqrt_loop.simps [code]

text \<open>The last two lines: \<open>s = str(c.num * int('1' + '0' * dig) / c.den)\<close> and the slices.\<close>

definition render :: "int \<Rightarrow> string \<Rightarrow> string" where
  "render dig s = slice_to s (- dig) @ ''.'' @ slice_from s (- dig)"

definition scaled :: "int \<Rightarrow> Ratio \<Rightarrow> pyerr + int" where
  "scaled dig c = py_div (num c * int_of_str (''1'' @ str_repeat CHR ''0'' dig)) (den c)"

definition init_state :: "int \<Rightarrow> loop_state" where
  "init_state a0 = \<lparr>st_m = 0, st_d = 1, st_a = [a0], st_pc = None\<rparr>"

definition precSqrt :: "int \<Rightarrow> int \<Rightarrow> (pyerr + string) option" where
  "precSqrt n dig =
     (case math_sqrt n of Inl e \<Rightarrow> Some (Inl e)
      | Inr x \<Rightarrow>
        let a0 = int_of_double (floor_double x) in
        if double_eq_int x a0 then Some (Inr (str_int a0))
        else (case sqrt_loop n dig (init_state a0) of None \<Rightarrow> None
              | Some (Inl e) \<Rightarrow> Some (Inl e)
              | Some (Inr c) \<Rightarrow>
                (case scaled dig c of Inl e \<Rightarrow> Some (Inl e)
                 | Inr v \<Rightarrow> Some (Inr (render dig (str_int v))))))"

section \<open>main\<close>

text \<open>
  One pass of the prompt loop of \<open>main\<close>, for two integers read from the user: the
  line it prints, or the exception that \<open>precSqrt\<close> raises. The test
  \<open>n != int(n) or dig != int(dig)\<close> is false on integers.
\<close>

definition main_pass :: "int \<Rightarrow> int \<Rightarrow> (pyerr + string) option" where
  "main_pass n dig =
     (if dig < 1 then Some (Inr ''Error: number of digits of precision must be at least 1.'')
      else if n \<noteq> n \<or> dig \<noteq> dig then Some (Inr ''Error: both numbers must be integers.'')
      else precSqrt n dig)"

section \<open>The loop on a store of Ratio objects\<close>

text \<open>
  \<open>rec\<close> changes an object in place, so whether \<open>pc\<close> keeps its value depends on
  which objects \<open>c\<close> and \<open>pc\<close> refer to. Here the objects live in a store and a
  variable holds an address: \<open>Ratio(...)\<close> allocates a new object, \<open>rec\<close> updates the
  object at its address, \<open>+\<close>, \<open>-\<close> and \<open>abs\<close> read their arguments and allocate
  their result, and an assignment to \<open>pc.num\<close> or \<open>pc.den\<close> updates one field.
\<close>

type_synonym store = "Ratio list"

definition Ratio_new :: "int \<Rightarrow> int \<Rightarrow> store \<Rightarrow> nat \<times> store" where
  "Ratio_new p q h = (length h, h @ [Ratio_init p q])"

definition rec_st :: "nat \<Rightarrow> store \<Rightarrow> store" where
  "rec_st c h = h[c := Ratio_rec (h ! c)]"

definition add_st :: "nat \<Rightarrow> nat \<Rightarrow> store \<Rightarrow> pyerr + nat \<times> store" where
  "add_st x y h =
     (case Ratio_add (h ! x) (h ! y) of Inl e \<Rightarrow> Inl e
      | Inr r \<Rightarrow> Inr (Ratio_new (num r) (den r) h))"

definition sub_st :: "nat \<Rightarrow> nat \<Rightarrow> store \<Rightarrow> pyerr + nat \<times> store" where
  "sub_st x y h = (let (t, h1) = Ratio_new (- num (h ! y)) (den (h ! y)) h in add_st x t h1)"

definition abs_st :: "nat \<Rightarrow> store \<Rightarrow> nat \<times> store" where
  "abs_st x h = Ratio_new \<bar>num (h ! x)\<bar> \<bar>den (h ! x)\<bar> h"

text \<open>\<open>c = Ratio(a[-1])\<close>, then \<open>c.rec(); c += Ratio(a[i])\<close> for each earlier index.\<close>

fun fold_conv_st :: "int list \<Rightarrow> nat \<Rightarrow> store \<Rightarrow> pyerr + nat \<times> store" where
  "fold_conv_st [] c h = Inr (c, h)"
| "fold_conv_st (x # xs) c h =
     (let (t, h1) = Ratio_new x 1 (rec_st c h) in
      case add_st c t h1 of Inl e \<Rightarrow> Inl e
      | Inr (c', h2) \<Rightarrow> fold_conv_st xs c' h2)"

definition convergent_st :: "int list \<Rightarrow> store \<Rightarrow> pyerr + nat \<times> store" where
  "convergent_st xs h =
     (let (c, h1) = Ratio_new (last xs) 1 h in fold_conv_st (rev (butlast xs)) c h1)"

text \<open>\<open>pc = Ratio(0); pc.num = c.num; pc.den = c.den\<close>.\<close>

definition copy_st :: "nat \<Rightarrow> store \<Rightarrow> nat \<times> store" where
  "copy_st c h =
     (let (p, h1) = Ratio_new 0 1 h;
          h2 = h1[p := (h1 ! p)\<lparr>num := num (h1 ! c)\<rparr>];
          h3 = h2[p := (h2 ! p)\<lparr>den := den (h2 ! c)\<rparr>]
      in (p, h3))"

record store_state =
  ss_m :: int
  ss_d :: int
  ss_a :: "int list"
  ss_pc :: "nat option"
  ss_store :: store

definition sqrt_round_st :: "int \<Rightarrow> store_state \<Rightarrow> pyerr + (store_state \<times> nat)" where
  "sqrt_round_st n s =
     (let m' = ss_d s * last (ss_a s) - ss_m s in
      case py_div (n - m' ^ 2) (ss_d s) of Inl e \<Rightarrow> Inl e
      | Inr d' \<Rightarrow>
        (case py_div (hd (ss_a s) + m') d' of Inl e \<Rightarrow> Inl e
         | Inr q \<Rightarrow>
           (case int_floor q of Inl e \<Rightarrow> Inl e
            | Inr t \<Rightarrow>
              (case convergent_st (ss_a s @ [t]) (ss_store s) of Inl e \<Rightarrow> Inl e
               | Inr (c, h) \<Rightarrow>
                 Inr (s\<lparr>ss_m := m', ss_d := d', ss_a := ss_a s @ [t], ss_store := h\<rparr>, c)))))"

definition converged_st :: "int \<Rightarrow> nat \<Rightarrow> nat option \<Rightarrow> store \<Rightarrow> pyerr + bool \<times> store" where
  "converged_st dig c pc h =
     (case pc of None \<Rightarrow> Inr (False, h)
      | Some p \<Rightarrow>
        (case sub_st c p h of Inl e \<Rightarrow> Inl e
         | Inr (df, h1) \<Rightarrow>
           (let (ab, h2) = abs_st df h1;
                (tl, h3) = Ratio_new 1 (int_of_str (''1'' @ str_repeat CHR ''0'' (dig + 1))) h2
            in case Ratio_lt (h3 ! ab) (h3 ! tl) of Inl e \<Rightarrow> Inl e
               | Inr b \<Rightarrow> Inr (b, h3))))"

text \<open>The loop; on \<open>break\<close> the result is the object that \<open>c\<close> refers to.\<close>

partial_function (option) sqrt_loop_st ::
  "int \<Rightarrow> int \<Rightarrow> store_state \<Rightarrow> (pyerr + Ratio) option" where
  "sqrt_loop_st n dig s =
     (case sqrt_round_st n s of Inl e \<Rightarrow> Some (Inl e)
      | Inr (s', c) \<Rightarrow>
        (case converged_st dig c (ss_pc s') (ss_store s') of Inl e \<Rightarrow> Some (Inl e)
         | Inr (b, h) \<Rightarrow>
           if b then Some (Inr (h ! c))
           else (case copy_st c h of
                   (p, h') \<Rightarrow> sqrt_loop_st n dig (s'\<lparr>ss_pc := Some p, ss_store := h'\<rparr>))))"

declare sqrt_loop_st.simps [code]

text \<open>The values a store state stands for: \<open>pc\<close> read through its address.\<close>

definition values_of :: "store_state \<Rightarrow> loop_state" where
  "values_of s =
     \<lparr>st_m = ss_m s, st_d = ss_d s, st_a = ss_a s,
      st_pc = map_option (\<lambda>p. ss_store s ! p) (ss_pc s)\<rparr>"

definition pc_allocated :: "store_state \<Rightarrow> bool" where
  "pc_allocated s = (case ss_pc s of None \<Rightarrow> True | Some p \<Rightarrow> p < length (ss_store s))"

text \<open>One round of each loop, with the recursive call as a parameter.\<close>

definition loop_body ::
  "(int \<Rightarrow> int \<Rightarrow> loop_state \<Rightarrow> (pyerr + Ratio) option) \<Rightarrow>
   int \<Rightarrow> int \<Rightarrow> loop_state \<Rightarrow> (pyerr + Ratio) option" where
  "loop_body F n dig s =
     (case sqrt_round n s of Inl e \<Rightarrow> Some (Inl e)
      | Inr (s', c) \<Rightarrow>
        (case converged dig c (st_pc s') of Inl e \<Rightarrow> Some (Inl e)
         | Inr b \<Rightarrow>
           if b then Some (Inr c)
           else F n dig (s'\<lparr>st_pc := Some (Ratio_init (num c) (den c))\<rparr>)))"

definition loop_body_st ::
  "(int \<Rightarrow> int \<Rightarrow> store_state \<Rightarrow> (pyerr + Ratio) option) \<Rightarrow>
   int \<Rightarrow> int \<Rightarrow> store_state \<Rightarrow> (pyerr + Ratio) option" where
  "loop_body_st F n dig s =
     (case sqrt_round_st n s of Inl e \<Rightarrow> Some (Inl e)
      | Inr (s', c) \<Rightarrow>
        (case converged_st dig c (ss_pc s') (ss_store s') of Inl e \<Rightarrow> Some (Inl e)
         | Inr (b, h) \<Rightarrow>
           if b then Some (Inr (h ! c))
           else (case copy_st c h of
                   (p, h') \<Rightarrow> F n dig (s'\<lparr>ss_pc := Some p, ss_store := h'\<rparr>))))"

section \<open>Notions used in the proofs\<close>

text \<open>
  The state of the loop after \<open>k\<close> rounds that did not leave it: a round followed by
  the copy of \<open>c\<close> into a fresh \<open>pc\<close>.
\<close>

definition next_state :: "int \<Rightarrow> loop_state \<Rightarrow> pyerr + loop_state" where
  "next_state n s =
     (case sqrt_round n s of Inl e \<Rightarrow> Inl e
      | Inr (s', c) \<Rightarrow> Inr (s'\<lparr>st_pc := Some (Ratio_init (num c) (den c))\<rparr>))"

fun run_rounds :: "int \<Rightarrow> nat \<Rightarrow> loop_state \<Rightarrow> pyerr + loop_state" where
  "run_rounds n 0 s = Inr s"
| "run_rounds n (Suc k) s =
     (case run_rounds n k s of Inl e \<Rightarrow> Inl e | Inr s' \<Rightarrow> next_state n s')"

definition state_at :: "int \<Rightarrow> int \<Rightarrow> nat \<Rightarrow> loop_state" where
  "state_at n a0 k = (case run_rounds n k (init_state a0) of Inr s \<Rightarrow> s | Inl e \<Rightarrow> init_state a0)"

definition cf_list :: "int \<Rightarrow> int \<Rightarrow> nat \<Rightarrow> int list" where
  "cf_list n a0 k = st_a (state_at n a0 k)"

text \<open>The invariant of \<open>m\<close>, \<open>d\<close> and \<open>a\<close>, for \<open>a0\<close> the integer square root of \<open>n\<close>.\<close>

definition md_inv :: "int \<Rightarrow> int \<Rightarrow> loop_state \<Rightarrow> bool" where
  "md_inv n a0 s \<longleftrightarrow>
     0 < st_d s \<and> 0 \<le> st_m s \<and> st_m s \<le> a0 \<and> st_d s dvd n - (st_m s)\<^sup>2 \<and>
     st_d s \<le> a0 + st_m s \<and> st_a s \<noteq> [] \<and> hd (st_a s) = a0 \<and>
     last (st_a s) = (a0 + st_m s) div st_d s \<and> (\<forall>x\<in>set (st_a s). 1 \<le> x \<and> x \<le> 2 * a0)"

text \<open>
  The rational number a \<open>Ratio\<close> stands for, and the value of the continued fraction
  with partial quotients \<open>xs\<close> whose innermost term is \<open>v\<close>.
\<close>

definition rval :: "Ratio \<Rightarrow> real" where
  "rval r = real_of_int (num r) / real_of_int (den r)"

fun cf_app :: "int list \<Rightarrow> real \<Rightarrow> real" where
  "cf_app [] v = v"
| "cf_app (x # xs) v = real_of_int x + 1 / cf_app xs v"

definition cval :: "int list \<Rightarrow> real" where
  "cval xs = cf_app (butlast xs) (real_of_int (last xs))"

definition rho :: "int \<Rightarrow> real" where
  "rho M = 1 + 1 / (real_of_int M + 1)"

definition tol :: "int \<Rightarrow> real" where
  "tol dig = 1 / 10 ^ nat (dig + 1)"

text \<open>Round \<open>k + 1\<close> passes the tolerance test against the \<open>pc\<close> of round \<open>k\<close>.\<close>

definition stops_at :: "int \<Rightarrow> int \<Rightarrow> int \<Rightarrow> nat \<Rightarrow> bool" where
  "stops_at n a0 dig k \<longleftrightarrow>
     1 \<le> k \<and> \<bar>cval (cf_list n a0 (Suc k)) - cval (cf_list n a0 k)\<bar> < tol dig"

text \<open>The integer spelled by the digits of a printed result, the point left out.\<close>

definition digits_value :: "string \<Rightarrow> int" where
  "digits_value s = int_of_str (filter (\<lambda>c. c \<noteq> CHR ''.'') s)"

text \<open>The fractional digits of a printed result: what follows the point.\<close>

definition frac_digits :: "string \<Rightarrow> string" where
  "frac_digits s = tl (dropWhile (\<lambda>c. c \<noteq> CHR ''.'') s)"

section \<open>Lemmas\<close>

subsection \<open>Ratio arithmetic on positive denominators\<close>

lemma gcd_py_nonneg: "0 \<le> m \<Longrightarrow> 0 \<le> n \<Longrightarrow> gcd_py m n = gcd m n"
proof (induction m n rule: gcd_py.induct)
  case (1 m n)
  show ?case
  proof (cases "n = 0")
    case True
    with "1.prems" show ?thesis by (subst gcd_py.simps) simp
  next
    case False
    with "1.prems" have "0 \<le> m mod n" by simp
    with "1.IH" "1.prems" False have "gcd_py n (m mod n) = gcd n (m mod n)" by simp
    also have "\<dots> = gcd m n" by (metis gcd_red_int)
    finally show ?thesis using False by (subst gcd_py.simps) simp
  qed
qed

lemma lcm_py_pos: "0 < x \<Longrightarrow> 0 < y \<Longrightarrow> lcm_py x y = Inr (lcm x y)"
  by (simp add: lcm_py_def py_div_def gcd_py_nonneg lcm_altdef_int abs_mult)

lemma Ratio_add_pos:
  assumes "0 < den x" "0 < den y"
  shows "\<exists>z. Ratio_add x y = Inr z \<and> den z = lcm (den x) (den y) \<and> 0 < den z
           \<and> rval z = rval x + rval y"
proof -
  let ?L = "lcm (den x) (den y)"
  have Lpos: "0 < ?L" using assms by (simp add: lcm_pos_int)
  have dx: "num x * ?L div den x = num x * (?L div den x)"
    by (simp add: div_mult_swap)
  have dy: "num y * ?L div den y = num y * (?L div den y)"
    by (simp add: div_mult_swap)
  have eq: "Ratio_add x y = Inr (Ratio_init (num x * (?L div den x) + num y * (?L div den y)) ?L)"
    using assms by (simp add: Ratio_add_def lcm_py_pos py_div_def dx dy)
  have rx: "real_of_int (?L div den x) = real_of_int ?L / real_of_int (den x)"
    by (simp add: real_of_int_div)
  have ry: "real_of_int (?L div den y) = real_of_int ?L / real_of_int (den y)"
    by (simp add: real_of_int_div)
  have "rval (Ratio_init (num x * (?L div den x) + num y * (?L div den y)) ?L) = rval x + rval y"
    using assms Lpos by (simp add: rval_def Ratio_init_def rx ry field_simps)
  with eq Lpos show ?thesis by (auto simp: Ratio_init_def)
qed

lemma Ratio_sub_pos:
  assumes "0 < den x" "0 < den y"
  shows "\<exists>z. Ratio_sub x y = Inr z \<and> 0 < den z \<and> rval z = rval x - rval y"
proof -
  have "0 < den (Ratio_init (- num y) (den y))" using assms by (simp add: Ratio_init_def)
  from Ratio_add_pos [OF assms(1) this] obtain z where
    z: "Ratio_add x (Ratio_init (- num y) (den y)) = Inr z" "0 < den z"
       "rval z = rval x + rval (Ratio_init (- num y) (den y))" by blast
  have "rval (Ratio_init (- num y) (den y)) = - rval y"
    by (simp add: rval_def Ratio_init_def)
  with z show ?thesis by (auto simp: Ratio_sub_def)
qed

lemma Ratio_abs_pos: "0 < den x \<Longrightarrow> 0 < den (Ratio_abs x) \<and> rval (Ratio_abs x) = \<bar>rval x\<bar>"
  by (simp add: Ratio_abs_def Ratio_init_def rval_def)

lemma Ratio_lt_pos:
  assumes "0 < den x" "0 < den y"
  shows "Ratio_lt x y = Inr (rval x < rval y)"
proof -
  let ?L = "lcm (den x) (den y)"
  have Lpos: "0 < ?L" using assms by (simp add: lcm_pos_int)
  have dx: "num x * ?L div den x = num x * (?L div den x)"
    by (simp add: div_mult_swap)
  have dy: "num y * ?L div den y = num y * (?L div den y)"
    by (simp add: div_mult_swap)
  have eq: "Ratio_lt x y = Inr (num x * (?L div den x) < num y * (?L div den y))"
    using assms by (simp add: Ratio_lt_def lcm_py_pos py_div_def dx dy)
  have rx: "real_of_int (?L div den x) = real_of_int ?L / real_of_int (den x)"
    by (simp add: real_of_int_div)
  have ry: "real_of_int (?L div den y) = real_of_int ?L / real_of_int (den y)"
    by (simp add: real_of_int_div)
  have "(num x * (?L div den x) < num y * (?L div den y))
        = (real_of_int (num x * (?L div den x)) < real_of_int (num y * (?L div den y)))"
    by (simp only: of_int_less_iff)
  also have "\<dots> = (rval x * real_of_int ?L < rval y * real_of_int ?L)"
    using assms by (simp add: rval_def rx ry)
  also have "\<dots> = (rval x < rval y)" using Lpos by simp
  finally show ?thesis using eq by simp
qed

lemma int_of_str_pow10: "int_of_str (''1'' @ str_repeat CHR ''0'' k) = 10 ^ nat k"
proof -
  have "foldl (\<lambda>acc c. 10 * acc + digit_val c) v (replicate j CHR ''0'') = v * 10 ^ j" for v j
    by (induction j arbitrary: v) (simp_all add: digit_val_def)
  then show ?thesis by (simp add: int_of_str_def str_repeat_def digit_val_def)
qed

subsection \<open>The value of a convergent\<close>

lemma cf_app_append: "cf_app (xs @ ys) v = cf_app xs (cf_app ys v)"
  by (induction xs) simp_all

lemma cf_app_ge1: "\<forall>x\<in>set xs. 1 \<le> x \<Longrightarrow> 1 \<le> v \<Longrightarrow> 1 \<le> cf_app xs v"
proof (induction xs)
  case Nil
  then show ?case by simp
next
  case (Cons x xs)
  then have "1 \<le> cf_app xs v" by simp
  then have "0 \<le> 1 / cf_app xs v" by simp
  moreover have "1 \<le> real_of_int x" using Cons.prems by simp
  ultimately show ?case unfolding cf_app.simps by linarith
qed

lemma fold_step:
  assumes "0 < num c" "0 < den c"
  shows "Ratio_add (Ratio_rec c) (Ratio_init x 1) = Inr \<lparr>num = den c + x * num c, den = num c\<rparr>"
  using assms
  by (simp add: Ratio_add_def Ratio_rec_def Ratio_init_def lcm_py_pos py_div_def)

lemma fold_conv_val:
  "\<forall>x\<in>set xs. 0 \<le> x \<Longrightarrow> 0 < num c \<Longrightarrow> 0 < den c \<Longrightarrow>
   \<exists>c'. fold_conv xs c = Inr c' \<and> 0 < num c' \<and> 0 < den c' \<and> rval c' = cf_app (rev xs) (rval c)"
proof (induction xs arbitrary: c)
  case Nil
  then show ?case by simp
next
  case (Cons x xs)
  let ?c1 = "\<lparr>num = den c + x * num c, den = num c\<rparr>"
  have x0: "0 \<le> x" using Cons.prems by simp
  have "0 \<le> x * num c" using x0 Cons.prems by simp
  then have "0 < den c + x * num c" using Cons.prems(3) by linarith
  then have p1: "0 < num ?c1" by simp
  have p2: "0 < den ?c1" using Cons.prems by simp
  have "\<forall>x\<in>set xs. 0 \<le> x" using Cons.prems by simp
  from Cons.IH [OF this p1 p2] obtain c' where
    c': "fold_conv xs ?c1 = Inr c'" "0 < num c'" "0 < den c'" "rval c' = cf_app (rev xs) (rval ?c1)"
    by blast
  have "rval ?c1 = real_of_int x + 1 / rval c"
    using Cons.prems by (simp add: rval_def field_simps)
  then have "rval c' = cf_app (rev (x # xs)) (rval c)"
    using c' by (simp add: cf_app_append)
  moreover have "fold_conv (x # xs) c = Inr c'"
    using c' Cons.prems by (simp add: fold_step)
  ultimately show ?case using c' by blast
qed

lemma convergent_val:
  assumes "xs \<noteq> []" "\<forall>x\<in>set xs. 1 \<le> x"
  shows "\<exists>c. convergent xs = Inr c \<and> 0 < num c \<and> 0 < den c
           \<and> rval c = cf_app (butlast xs) (real_of_int (last xs))"
proof -
  have l: "1 \<le> last xs" using assms by simp
  have b: "\<forall>x\<in>set (rev (butlast xs)). 0 \<le> x"
    using assms by (auto dest!: in_set_butlastD)
  have "0 < num (Ratio_init (last xs) 1)" "0 < den (Ratio_init (last xs) 1)"
    using l by (simp_all add: Ratio_init_def)
  from fold_conv_val [OF b this] show ?thesis
    by (simp add: convergent_def rval_def Ratio_init_def)
qed

subsection \<open>The recurrence for m and d\<close>

lemma quot_bounds:
  fixes a0 m d :: int
  assumes "0 < d" "0 \<le> m" "m \<le> a0" "d \<le> a0 + m"
  shows "1 \<le> (a0 + m) div d" "(a0 + m) div d \<le> 2 * a0"
proof -
  have "d div d \<le> (a0 + m) div d" using assms by (intro zdiv_mono1) auto
  then show "1 \<le> (a0 + m) div d" using assms by simp
  have "(a0 + m) div d \<le> a0 + m"
    using assms by (intro int_div_le_self) auto
  then show "(a0 + m) div d \<le> 2 * a0" using assms by linarith
qed

lemma cf_step_int:
  fixes n a0 m d :: int
  assumes a0: "1 \<le> a0" "a0\<^sup>2 < n" "n < (a0 + 1)\<^sup>2"
      and inv: "0 < d" "0 \<le> m" "m \<le> a0" "d dvd n - m\<^sup>2" "d \<le> a0 + m"
  defines "a \<equiv> (a0 + m) div d" and "m' \<equiv> d * ((a0 + m) div d) - m"
  defines "d' \<equiv> (n - m'\<^sup>2) div d"
  shows "d dvd n - m'\<^sup>2" "0 < d'" "0 \<le> m'" "m' \<le> a0" "d' dvd n - m'\<^sup>2" "d' \<le> a0 + m'"
proof -
  have a1: "1 \<le> a" unfolding a_def using quot_bounds(1) [OF inv(1,2,3,5)] .
  have md: "a0 + m = d * a + (a0 + m) mod d" unfolding a_def by simp
  have "0 \<le> (a0 + m) mod d" using inv(1) by simp
  with md have lo: "d * a \<le> a0 + m" by linarith
  have "(a0 + m) mod d < d" using inv(1) by simp
  with md have "a0 + m < d * a + d" by linarith
  then have hi: "a0 - m' < d" unfolding m'_def a_def by linarith
  have m'eq: "m' = d * a - m" unfolding m'_def a_def by simp
  show m'le: "m' \<le> a0" using lo m'eq by linarith
  have "d * 1 \<le> d * a" using a1 inv(1) by (intro mult_left_mono) auto
  then have dle: "d \<le> a0 + m'" using m'eq inv(3) by linarith
  have m'gt: "- a0 < m'" using hi inv(5) inv(3) inv(2) by linarith
  have eq: "n - m'\<^sup>2 = (n - m\<^sup>2) + d * (2 * a * m - a * a * d)"
    unfolding m'eq by (simp add: power2_eq_square algebra_simps)
  have "d dvd (n - m\<^sup>2) + d * (2 * a * m - a * a * d)"
    using inv(4) by (intro dvd_add dvd_triv_left)
  then show dv: "d dvd n - m'\<^sup>2" unfolding eq .
  have "m'\<^sup>2 \<le> a0\<^sup>2"
    using m'le m'gt by (intro abs_le_square_iff [THEN iffD1]) (simp add: abs_le_iff)
  then have pos: "0 < n - m'\<^sup>2" using a0(2) by linarith
  have prod: "d' * d = n - m'\<^sup>2" unfolding d'_def using dv by simp
  show d'pos: "0 < d'"
  proof (rule ccontr)
    assume "\<not> 0 < d'"
    then have "d' * d \<le> 0" using inv(1) by (simp add: mult_le_0_iff)
    with prod pos show False by simp
  qed
  show "d' dvd n - m'\<^sup>2" using prod by (metis dvd_triv_left)
  have gt: "a0 - m' < d'"
  proof -
    have "(a0 - m') * d \<le> (a0 - m') * (a0 + m')"
      using dle m'le by (intro mult_left_mono) auto
    also have "\<dots> = a0\<^sup>2 - m'\<^sup>2" by (simp add: power2_eq_square algebra_simps)
    also have "\<dots> < n - m'\<^sup>2" using a0(2) by simp
    also have "\<dots> = d' * d" using prod by simp
    finally show ?thesis using inv(1) by simp
  qed
  show le: "d' \<le> a0 + m'"
  proof -
    have "d' * d = n - m'\<^sup>2" by (rule prod)
    also have "\<dots> < (a0 + 1)\<^sup>2 - m'\<^sup>2" using a0(3) by simp
    also have "\<dots> = (a0 + 1 + m') * (a0 + 1 - m')" by (simp add: power2_eq_square algebra_simps)
    also have "\<dots> \<le> (a0 + 1 + m') * d"
      using hi m'gt by (intro mult_left_mono) auto
    finally have "d' < a0 + 1 + m'" using inv(1) by simp
    then show ?thesis by simp
  qed
  show "0 \<le> m'" using gt le by linarith
qed

lemma int_floor_small: "\<bar>q\<bar> < 2 ^ 53 \<Longrightarrow> int_floor q = Inr q"
  by (simp add: int_floor_def float_of_int_def floor_double_def int_of_double_def)

lemma md_inv_init: "1 \<le> a0 \<Longrightarrow> md_inv n a0 (init_state a0)"
  by (simp add: md_inv_def init_state_def)

lemma sqrt_round_inv:
  assumes seed: "1 \<le> a0" "a0\<^sup>2 < n" "n < (a0 + 1)\<^sup>2" "a0 < 2 ^ 52"
      and inv: "md_inv n a0 s"
  shows "\<exists>s' c t. sqrt_round n s = Inr (s', c) \<and> md_inv n a0 s' \<and> st_pc s' = st_pc s \<and>
           st_a s' = st_a s @ [t] \<and> 1 \<le> t \<and>
           st_d s dvd n - (st_d s * last (st_a s) - st_m s)\<^sup>2 \<and>
           0 < den c \<and> rval c = cval (st_a s')"
proof -
  let ?m = "st_m s" and ?d = "st_d s"
  let ?m' = "?d * ((a0 + ?m) div ?d) - ?m"
  let ?d' = "(n - ?m'\<^sup>2) div ?d"
  let ?t = "(a0 + ?m') div ?d'"
  let ?s' = "s\<lparr>st_m := ?m', st_d := ?d', st_a := st_a s @ [?t]\<rparr>"
  from inv have i: "0 < ?d" "0 \<le> ?m" "?m \<le> a0" "?d dvd n - ?m\<^sup>2" "?d \<le> a0 + ?m"
    and l: "st_a s \<noteq> []" "hd (st_a s) = a0" "last (st_a s) = (a0 + ?m) div ?d"
    and b: "\<forall>x\<in>set (st_a s). 1 \<le> x \<and> x \<le> 2 * a0"
    by (simp_all add: md_inv_def)
  note st = cf_step_int [OF seed(1,2,3) i]
  note qb = quot_bounds [OF st(2) st(3) st(4) st(6)]
  have "\<bar>?t\<bar> < 2 ^ 53" using qb seed(4) by simp
  then have fl: "int_floor ?t = Inr ?t" by (rule int_floor_small)
  have d0: "?d \<noteq> 0" "?d' \<noteq> 0" using i(1) st(2) by simp_all
  have all1: "\<forall>x\<in>set (st_a s @ [?t]). 1 \<le> x" using b qb by auto
  from convergent_val [OF _ all1] obtain c where
    c: "convergent (st_a s @ [?t]) = Inr c" "0 < den c"
       "rval c = cf_app (butlast (st_a s @ [?t])) (real_of_int (last (st_a s @ [?t])))"
    by auto
  have r: "sqrt_round n s = Inr (?s', c)"
    using d0 fl c(1) l by (simp add: sqrt_round_def Let_def py_div_def)
  have "md_inv n a0 ?s'"
    using st qb l b by (simp add: md_inv_def)
  moreover have "?d dvd n - (?d * last (st_a s) - ?m)\<^sup>2" using st(1) l(3) by simp
  ultimately show ?thesis using r c qb(1) by (simp add: cval_def)
qed

lemma next_state_inv:
  assumes seed: "1 \<le> a0" "a0\<^sup>2 < n" "n < (a0 + 1)\<^sup>2" "a0 < 2 ^ 52"
      and inv: "md_inv n a0 s"
  shows "\<exists>s' c t. sqrt_round n s = Inr (s'\<lparr>st_pc := st_pc s\<rparr>, c) \<and> next_state n s = Inr s' \<and>
           md_inv n a0 s' \<and> st_a s' = st_a s @ [t] \<and> 1 \<le> t \<and> st_pc s' = Some c \<and>
           0 < den c \<and> rval c = cval (st_a s')"
proof -
  from sqrt_round_inv [OF seed inv] obtain s1 c t where
    r: "sqrt_round n s = Inr (s1, c)" "md_inv n a0 s1" "st_pc s1 = st_pc s"
       "st_a s1 = st_a s @ [t]" "1 \<le> t" "0 < den c" "rval c = cval (st_a s1)"
    by blast
  let ?s' = "s1\<lparr>st_pc := Some (Ratio_init (num c) (den c))\<rparr>"
  have "next_state n s = Inr ?s'" using r(1) by (simp add: next_state_def)
  moreover have "?s'\<lparr>st_pc := st_pc s\<rparr> = s1" using r(3) by simp
  moreover have "md_inv n a0 ?s'" using r(2) by (simp add: md_inv_def)
  moreover have "Ratio_init (num c) (den c) = c" by (simp add: Ratio_init_def)
  ultimately show ?thesis using r by (intro exI [of _ ?s'] exI [of _ c] exI [of _ t]) simp
qed

subsection \<open>Continued fractions: bounds, contraction, monotonicity\<close>

lemma cf_app_upper:
  "\<forall>x\<in>set xs. 1 \<le> x \<and> x \<le> M \<Longrightarrow> 1 \<le> v \<Longrightarrow> v \<le> real_of_int M + 1 \<Longrightarrow>
   cf_app xs v \<le> real_of_int M + 1"
proof (induction xs)
  case Nil
  then show ?case by simp
next
  case (Cons x xs)
  have "1 \<le> cf_app xs v" using Cons.prems by (intro cf_app_ge1) auto
  then have "1 / cf_app xs v \<le> 1" by simp
  moreover have "real_of_int x \<le> real_of_int M" using Cons.prems by simp
  ultimately show ?case unfolding cf_app.simps by linarith
qed

lemma cf_app_lower:
  assumes "xs \<noteq> []" "\<forall>x\<in>set xs. 1 \<le> x \<and> x \<le> M" "1 \<le> v" "v \<le> real_of_int M + 1"
  shows "rho M \<le> cf_app xs v"
proof (cases xs)
  case Nil
  with assms show ?thesis by simp
next
  case (Cons x ys)
  have b: "\<forall>x\<in>set ys. 1 \<le> x \<and> x \<le> M" using assms Cons by simp
  then have "\<forall>x\<in>set ys. 1 \<le> x" by simp
  then have g: "1 \<le> cf_app ys v" using assms by (intro cf_app_ge1) auto
  have u: "cf_app ys v \<le> real_of_int M + 1" using b assms by (intro cf_app_upper) auto
  have "1 / (real_of_int M + 1) \<le> 1 / cf_app ys v"
    using g u by (intro divide_left_mono) auto
  moreover have "1 \<le> real_of_int x" using assms Cons by simp
  ultimately show ?thesis unfolding Cons cf_app.simps rho_def by linarith
qed

lemma inverse_diff_bound:
  fixes p q r :: real
  assumes "0 < r" "r \<le> p" "r \<le> q"
  shows "\<bar>1 / p - 1 / q\<bar> \<le> \<bar>p - q\<bar> / r\<^sup>2"
proof -
  have pq: "0 < p" "0 < q" using assms by auto
  have "1 / p - 1 / q = (q - p) / (p * q)" using pq by (simp add: field_simps)
  then have "\<bar>1 / p - 1 / q\<bar> = \<bar>p - q\<bar> / (p * q)"
    using pq by (simp add: abs_minus_commute)
  also have "\<dots> \<le> \<bar>p - q\<bar> / r\<^sup>2"
  proof (rule divide_left_mono)
    show "r\<^sup>2 \<le> p * q" unfolding power2_eq_square using assms by (intro mult_mono) auto
    show "0 \<le> \<bar>p - q\<bar>" by simp
    show "0 < p * q * r\<^sup>2" using pq assms by simp
  qed
  finally show ?thesis .
qed

lemma cf_app_lipschitz:
  assumes "\<forall>x\<in>set xs. 1 \<le> x \<and> x \<le> M" "1 \<le> v" "v \<le> real_of_int M + 1"
    "1 \<le> w" "w \<le> real_of_int M + 1" "0 \<le> M"
  shows "\<bar>cf_app xs v - cf_app xs w\<bar> \<le> \<bar>v - w\<bar> * (1 / (rho M)\<^sup>2) ^ (length xs - 1)"
  using assms(1)
proof (induction xs rule: induct_list012)
  case 1
  then show ?case by simp
next
  case (2 x)
  have "\<bar>1 / v - 1 / w\<bar> \<le> \<bar>v - w\<bar> / 1\<^sup>2"
    using assms by (intro inverse_diff_bound) auto
  then show ?case by simp
next
  case (3 x y zs)
  let ?T = "cf_app (y # zs)"
  have b: "\<forall>x\<in>set (y # zs). 1 \<le> x \<and> x \<le> M" using 3 by simp
  have rpos: "0 < rho M" using assms(6) by (simp add: rho_def add_pos_nonneg)
  have lv: "rho M \<le> ?T v" using b assms by (intro cf_app_lower) auto
  have lw: "rho M \<le> ?T w" using b assms by (intro cf_app_lower) auto
  have "\<bar>cf_app (x # y # zs) v - cf_app (x # y # zs) w\<bar> = \<bar>1 / ?T v - 1 / ?T w\<bar>"
    by simp
  also have "\<dots> \<le> \<bar>?T v - ?T w\<bar> / (rho M)\<^sup>2"
    using rpos lv lw by (rule inverse_diff_bound)
  also have "\<dots> \<le> (\<bar>v - w\<bar> * (1 / (rho M)\<^sup>2) ^ (length (y # zs) - 1)) / (rho M)\<^sup>2"
    using "3.IH"(2) [OF b] rpos by (intro divide_right_mono) auto
  also have "\<dots> = \<bar>v - w\<bar> * (1 / (rho M)\<^sup>2) ^ (length (x # y # zs) - 1)"
    by simp
  finally show ?case .
qed

lemma cf_app_mono:
  "\<forall>x\<in>set xs. 1 \<le> x \<Longrightarrow> 1 \<le> v \<Longrightarrow> v \<le> w \<Longrightarrow>
   (if even (length xs) then cf_app xs v \<le> cf_app xs w else cf_app xs w \<le> cf_app xs v)"
proof (induction xs)
  case Nil
  then show ?case by simp
next
  case (Cons x xs)
  have gv: "1 \<le> cf_app xs v" using Cons.prems by (intro cf_app_ge1) auto
  have gw: "1 \<le> cf_app xs w" using Cons.prems by (intro cf_app_ge1) auto
  show ?case
  proof (cases "even (length xs)")
    case True
    with Cons have "cf_app xs v \<le> cf_app xs w" by simp
    then have "1 / cf_app xs w \<le> 1 / cf_app xs v"
      using gv by (intro divide_left_mono) auto
    with True show ?thesis by simp
  next
    case False
    with Cons have "cf_app xs w \<le> cf_app xs v" by simp
    then have "1 / cf_app xs v \<le> 1 / cf_app xs w"
      using gw by (intro divide_left_mono) auto
    with False show ?thesis by simp
  qed
qed

lemma cf_app_between:
  assumes "\<forall>x\<in>set xs. 1 \<le> x" "1 \<le> v" "v \<le> w" "w \<le> v'"
  shows "\<bar>cf_app xs w - cf_app xs v'\<bar> \<le> \<bar>cf_app xs v - cf_app xs v'\<bar>"
proof -
  have vw: "if even (length xs) then cf_app xs v \<le> cf_app xs w else cf_app xs w \<le> cf_app xs v"
    using assms by (intro cf_app_mono) auto
  have wv': "if even (length xs) then cf_app xs w \<le> cf_app xs v' else cf_app xs v' \<le> cf_app xs w"
    using assms by (intro cf_app_mono) auto
  show ?thesis
  proof (cases "even (length xs)")
    case True
    with vw wv' show ?thesis by simp
  next
    case False
    with vw wv' show ?thesis by simp
  qed
qed

subsection \<open>The states of the loop, round by round\<close>

lemma cval_snoc:
  assumes "xs \<noteq> []"
  shows "cval (xs @ [t]) = cf_app (butlast xs) (real_of_int (last xs) + 1 / real_of_int t)"
proof -
  have "cval (xs @ [t]) = cf_app (butlast xs @ [last xs]) (real_of_int t)"
    using assms by (simp add: cval_def)
  then show ?thesis by (simp add: cf_app_append)
qed

lemma cval_snoc_diff:
  assumes "xs \<noteq> []" "\<forall>x\<in>set xs. 1 \<le> x \<and> x \<le> M" "1 \<le> t"
  shows "\<bar>cval (xs @ [t]) - cval xs\<bar> \<le> (1 / (rho M)\<^sup>2) ^ (length xs - 2)"
proof -
  let ?v = "real_of_int (last xs)" and ?w = "real_of_int (last xs) + 1 / real_of_int t"
  have lx: "1 \<le> last xs" "last xs \<le> M" using assms by auto
  then have M0: "0 \<le> M" by linarith
  have t1: "0 \<le> 1 / real_of_int t" "1 / real_of_int t \<le> 1" using assms(3) by simp_all
  have b: "\<forall>x\<in>set (butlast xs). 1 \<le> x \<and> x \<le> M"
    using assms(2) by (auto dest: in_set_butlastD)
  have v1: "1 \<le> ?v" and v2: "?v \<le> real_of_int M + 1" using lx by simp_all
  have w1: "1 \<le> ?w" using v1 t1 by linarith
  have w2: "?w \<le> real_of_int M + 1" using lx t1 by (simp add: add_mono)
  have "\<bar>cf_app (butlast xs) ?w - cf_app (butlast xs) ?v\<bar>
        \<le> \<bar>?w - ?v\<bar> * (1 / (rho M)\<^sup>2) ^ (length (butlast xs) - 1)"
    by (rule cf_app_lipschitz [OF b w1 w2 v1 v2 M0])
  also have "\<dots> \<le> 1 * (1 / (rho M)\<^sup>2) ^ (length (butlast xs) - 1)"
    using t1 by (intro mult_right_mono) auto
  finally have "\<bar>cf_app (butlast xs) ?w - cf_app (butlast xs) ?v\<bar>
        \<le> (1 / (rho M)\<^sup>2) ^ (length xs - 2)"
    by (simp add: numeral_2_eq_2)
  moreover have "cval xs = cf_app (butlast xs) ?v" by (simp add: cval_def)
  ultimately show ?thesis using cval_snoc [OF assms(1), of t] by simp
qed

lemma cval_Cons_ge:
  assumes "\<forall>x\<in>set (t # zs). 1 \<le> x"
  shows "real_of_int t \<le> cval (t # zs)"
proof (cases zs rule: rev_cases)
  case Nil
  then show ?thesis by (simp add: cval_def)
next
  case (snoc ys y)
  have "1 \<le> cf_app ys (real_of_int y)" using assms snoc by (intro cf_app_ge1) auto
  then have "0 \<le> 1 / cf_app ys (real_of_int y)" by simp
  moreover have "cval (t # zs) = real_of_int t + 1 / cf_app ys (real_of_int y)"
    using snoc by (simp add: cval_def butlast_append)
  ultimately show ?thesis by linarith
qed

lemma cval_extend_between:
  assumes "xs \<noteq> []" "\<forall>x\<in>set (xs @ t # zs). 1 \<le> x"
  shows "\<bar>cval (xs @ t # zs) - cval (xs @ [t])\<bar> \<le> \<bar>cval xs - cval (xs @ [t])\<bar>"
proof -
  let ?u = "cval (t # zs)"
  let ?v = "real_of_int (last xs)"
  have t1: "1 \<le> real_of_int t" using assms(2) by simp
  have ut: "real_of_int t \<le> ?u" using assms(2) by (intro cval_Cons_ge) auto
  have "cval (xs @ t # zs) = cf_app xs ?u"
    by (simp add: cval_def butlast_append cf_app_append)
  also have "\<dots> = cf_app (butlast xs @ [last xs]) ?u" using assms(1) by simp
  also have "\<dots> = cf_app (butlast xs) (?v + 1 / ?u)" by (simp add: cf_app_append)
  finally have e: "cval (xs @ t # zs) = cf_app (butlast xs) (?v + 1 / ?u)" .
  have b: "\<forall>x\<in>set (butlast xs). 1 \<le> x" using assms(2) by (auto dest: in_set_butlastD)
  have v1: "1 \<le> ?v" using assms by simp
  have w1: "?v \<le> ?v + 1 / ?u" using ut t1 by simp
  have w2: "?v + 1 / ?u \<le> ?v + 1 / real_of_int t"
    using ut t1 by (simp add: divide_left_mono)
  have c1: "cval (xs @ [t]) = cf_app (butlast xs) (?v + 1 / real_of_int t)"
    by (rule cval_snoc [OF assms(1)])
  have c0: "cval xs = cf_app (butlast xs) ?v" by (simp add: cval_def)
  show ?thesis unfolding e c1 c0 using cf_app_between [OF b v1 w1 w2] .
qed

lemma run_rounds_inv:
  assumes seed: "1 \<le> a0" "a0\<^sup>2 < n" "n < (a0 + 1)\<^sup>2" "a0 < 2 ^ 52"
  shows "\<exists>s. run_rounds n k (init_state a0) = Inr s \<and> md_inv n a0 s \<and> length (st_a s) = Suc k \<and>
           (0 < k \<longrightarrow> (\<exists>p. st_pc s = Some p \<and> 0 < den p \<and> rval p = cval (st_a s)))"
proof (induction k)
  case 0
  then show ?case using seed(1) by (simp add: md_inv_init) (simp add: init_state_def)
next
  case (Suc k)
  then obtain s where s: "run_rounds n k (init_state a0) = Inr s" "md_inv n a0 s"
    "length (st_a s) = Suc k" by blast
  from next_state_inv [OF seed s(2)] obtain s' c t where
    "next_state n s = Inr s'" "md_inv n a0 s'" "st_a s' = st_a s @ [t]" "st_pc s' = Some c"
    "0 < den c" "rval c = cval (st_a s')" by blast
  with s show ?case by simp
qed

lemma state_at_run:
  assumes seed: "1 \<le> a0" "a0\<^sup>2 < n" "n < (a0 + 1)\<^sup>2" "a0 < 2 ^ 52"
  shows "run_rounds n k (init_state a0) = Inr (state_at n a0 k)"
    and "md_inv n a0 (state_at n a0 k)"
    and "length (cf_list n a0 k) = Suc k"
    and "0 < k \<Longrightarrow> \<exists>p. st_pc (state_at n a0 k) = Some p \<and> 0 < den p \<and> rval p = cval (cf_list n a0 k)"
  using run_rounds_inv [OF seed, of k] by (auto simp: state_at_def cf_list_def)

lemma state_at_0: "state_at n a0 0 = init_state a0"
  by (simp add: state_at_def)

lemma round_at:
  assumes seed: "1 \<le> a0" "a0\<^sup>2 < n" "n < (a0 + 1)\<^sup>2" "a0 < 2 ^ 52"
  shows "\<exists>c t. sqrt_round n (state_at n a0 k)
                 = Inr ((state_at n a0 (Suc k))\<lparr>st_pc := st_pc (state_at n a0 k)\<rparr>, c) \<and>
           st_pc (state_at n a0 (Suc k)) = Some c \<and> 0 < den c \<and>
           rval c = cval (cf_list n a0 (Suc k)) \<and>
           cf_list n a0 (Suc k) = cf_list n a0 k @ [t] \<and> 1 \<le> t"
proof -
  note sa = state_at_run [OF seed]
  from next_state_inv [OF seed sa(2) [of k]] obtain s' c t where
    r: "sqrt_round n (state_at n a0 k) = Inr (s'\<lparr>st_pc := st_pc (state_at n a0 k)\<rparr>, c)"
       "next_state n (state_at n a0 k) = Inr s'" "st_a s' = st_a (state_at n a0 k) @ [t]"
       "1 \<le> t" "st_pc s' = Some c" "0 < den c" "rval c = cval (st_a s')" by blast
  have "run_rounds n (Suc k) (init_state a0) = Inr s'" using sa(1) [of k] r(2) by simp
  then have "state_at n a0 (Suc k) = s'" by (simp add: state_at_def)
  with r show ?thesis by (auto simp: cf_list_def)
qed

lemma cf_list_bounds:
  assumes seed: "1 \<le> a0" "a0\<^sup>2 < n" "n < (a0 + 1)\<^sup>2" "a0 < 2 ^ 52"
  shows "cf_list n a0 k \<noteq> []" "\<forall>x\<in>set (cf_list n a0 k). 1 \<le> x \<and> x \<le> 2 * a0"
  using state_at_run(2) [OF seed, of k] by (simp_all add: md_inv_def cf_list_def)

lemma cf_list_prefix:
  assumes seed: "1 \<le> a0" "a0\<^sup>2 < n" "n < (a0 + 1)\<^sup>2" "a0 < 2 ^ 52"
  shows "\<exists>zs. cf_list n a0 (k + j) = cf_list n a0 k @ zs"
proof (induction j)
  case 0
  then show ?case by simp
next
  case (Suc j)
  then obtain zs where "cf_list n a0 (k + j) = cf_list n a0 k @ zs" by blast
  moreover from round_at [OF seed, of "k + j"] obtain t where
    "cf_list n a0 (Suc (k + j)) = cf_list n a0 (k + j) @ [t]" by blast
  ultimately show ?case by simp
qed

subsection \<open>Leaving the loop\<close>

lemma int_of_str_pow10_Cons: "int_of_str (CHR ''1'' # str_repeat CHR ''0'' k) = 10 ^ nat k"
  using int_of_str_pow10 [of k] by simp

lemma converged_pos:
  assumes "0 < den c" "0 < den p"
  shows "converged dig c (Some p) = Inr (\<bar>rval c - rval p\<bar> < tol dig)"
proof -
  from Ratio_sub_pos [OF assms] obtain df where
    df: "Ratio_sub c p = Inr df" "0 < den df" "rval df = rval c - rval p" by blast
  have a: "0 < den (Ratio_abs df)" "rval (Ratio_abs df) = \<bar>rval c - rval p\<bar>"
    using Ratio_abs_pos [OF df(2)] df(3) by simp_all
  have t: "0 < den (tolerance dig)" "rval (tolerance dig) = tol dig"
    by (simp_all add: tolerance_def int_of_str_pow10_Cons Ratio_init_def rval_def tol_def)
  show ?thesis
    using df(1) Ratio_lt_pos [OF a(1) t(1)] a(2) t(2) by (simp add: converged_def)
qed

lemma loop_stop:
  "sqrt_round n s = Inr (s', c) \<Longrightarrow> converged dig c (st_pc s') = Inr True \<Longrightarrow>
   sqrt_loop n dig s = Some (Inr c)"
  by (subst sqrt_loop.simps) simp

lemma loop_cont:
  "sqrt_round n s = Inr (s', c) \<Longrightarrow> converged dig c (st_pc s') = Inr False \<Longrightarrow>
   sqrt_loop n dig s = sqrt_loop n dig (s'\<lparr>st_pc := Some (Ratio_init (num c) (den c))\<rparr>)"
  by (subst sqrt_loop.simps) simp

lemma loop_from:
  assumes seed: "1 \<le> a0" "a0\<^sup>2 < n" "n < (a0 + 1)\<^sup>2" "a0 < 2 ^ 52"
      and stop: "stops_at n a0 dig K" and least: "\<forall>j<K. \<not> stops_at n a0 dig j"
  shows "j \<le> K \<Longrightarrow> \<exists>c. sqrt_loop n dig (state_at n a0 j) = Some (Inr c) \<and> 0 < den c \<and>
           rval c = cval (cf_list n a0 (Suc K))"
proof (induction "K - j" arbitrary: j)
  case 0
  then have jK: "j = K" by simp
  from round_at [OF seed, of K] obtain c where
    r: "sqrt_round n (state_at n a0 K)
          = Inr ((state_at n a0 (Suc K))\<lparr>st_pc := st_pc (state_at n a0 K)\<rparr>, c)"
       "0 < den c" "rval c = cval (cf_list n a0 (Suc K))" by blast
  from stop have K1: "0 < K" by (simp add: stops_at_def)
  from state_at_run(4) [OF seed K1] obtain p where
    p: "st_pc (state_at n a0 K) = Some p" "0 < den p" "rval p = cval (cf_list n a0 K)" by blast
  have "converged dig c (Some p) = Inr True"
    using converged_pos [OF r(2) p(2)] stop r(3) p(3) by (simp add: stops_at_def)
  then have "sqrt_loop n dig (state_at n a0 K) = Some (Inr c)"
    using r(1) p(1) by (intro loop_stop) auto
  with r jK show ?case by blast
next
  case (Suc d)
  then have jK: "j < K" and d: "d = K - Suc j" and le: "Suc j \<le> K" by simp_all
  from round_at [OF seed, of j] obtain c where
    r: "sqrt_round n (state_at n a0 j)
          = Inr ((state_at n a0 (Suc j))\<lparr>st_pc := st_pc (state_at n a0 j)\<rparr>, c)"
       "st_pc (state_at n a0 (Suc j)) = Some c"
       "0 < den c" "rval c = cval (cf_list n a0 (Suc j))" by blast
  have nc: "converged dig c (st_pc (state_at n a0 j)) = Inr False"
  proof (cases "j = 0")
    case True
    then show ?thesis by (simp add: state_at_0 init_state_def converged_def)
  next
    case False
    then have j1: "0 < j" by simp
    from state_at_run(4) [OF seed j1] obtain p where
      p: "st_pc (state_at n a0 j) = Some p" "0 < den p" "rval p = cval (cf_list n a0 j)" by blast
    have "\<not> stops_at n a0 dig j" using least jK by simp
    then show ?thesis
      using converged_pos [OF r(3) p(2)] r(4) p(1,3) j1 by (simp add: stops_at_def)
  qed
  have "(state_at n a0 (Suc j))\<lparr>st_pc := st_pc (state_at n a0 j)\<rparr>
          \<lparr>st_pc := Some (Ratio_init (num c) (den c))\<rparr> = state_at n a0 (Suc j)"
    using r(2) by (simp add: Ratio_init_def)
  then have "sqrt_loop n dig (state_at n a0 j) = sqrt_loop n dig (state_at n a0 (Suc j))"
    using loop_cont [OF r(1)] nc by simp
  with Suc.hyps(1) [OF d le] show ?case by simp
qed

lemma stops_eventually:
  assumes seed: "1 \<le> a0" "a0\<^sup>2 < n" "n < (a0 + 1)\<^sup>2" "a0 < 2 ^ 52"
  shows "\<exists>K. stops_at n a0 dig K"
proof -
  let ?th = "1 / (rho (2 * a0))\<^sup>2"
  have r1: "1 < rho (2 * a0)" using seed(1) by (simp add: rho_def)
  then have "1 < (rho (2 * a0))\<^sup>2" by (simp add: power2_eq_square less_1_mult)
  then have "?th < 1 / 1" by (intro divide_strict_left_mono) auto
  then have th1: "?th < 1" by simp
  have "0 < tol dig" by (simp add: tol_def)
  from real_arch_pow_inv [OF this th1] obtain N where N: "?th ^ N < tol dig" by blast
  let ?K = "Suc N"
  from round_at [OF seed, of ?K] obtain t where
    t: "cf_list n a0 (Suc ?K) = cf_list n a0 ?K @ [t]" "1 \<le> t" by blast
  note b = cf_list_bounds [OF seed, of ?K]
  have "\<bar>cval (cf_list n a0 ?K @ [t]) - cval (cf_list n a0 ?K)\<bar>
         \<le> ?th ^ (length (cf_list n a0 ?K) - 2)"
    by (rule cval_snoc_diff [OF b t(2)])
  also have "\<dots> = ?th ^ N" using state_at_run(3) [OF seed, of ?K] by simp
  finally have "stops_at n a0 dig ?K" using N t(1) by (simp add: stops_at_def)
  then show ?thesis ..
qed

lemma loop_terminates_seed:
  assumes seed: "1 \<le> a0" "a0\<^sup>2 < n" "n < (a0 + 1)\<^sup>2" "a0 < 2 ^ 52"
  shows "\<exists>K c. stops_at n a0 dig K \<and> (\<forall>j<K. \<not> stops_at n a0 dig j) \<and>
           sqrt_loop n dig (init_state a0) = Some (Inr c) \<and> 0 < den c \<and>
           rval c = cval (cf_list n a0 (Suc K))"
proof -
  from stops_eventually [OF seed, of dig] obtain K where
    K: "stops_at n a0 dig K" "\<forall>j<K. \<not> stops_at n a0 dig j"
    using exists_least_iff [of "stops_at n a0 dig"] by blast
  from loop_from [OF seed K, of 0] show ?thesis using K by (auto simp: state_at_0)
qed

subsection \<open>Doubles: bit length, integer square root, rounding\<close>

lemma bit_length_bounds:
  "0 < i \<Longrightarrow> 0 < bit_length i \<and> 2 ^ (bit_length i - 1) \<le> i \<and> i < 2 ^ bit_length i"
proof (induction i rule: bit_length.induct)
  case (1 i)
  have bl: "bit_length i = Suc (bit_length (i div 2))"
    using "1.prems" by (subst bit_length.simps) simp
  show ?case
  proof (cases "i div 2 = 0")
    case True
    then have "i = 1" using "1.prems" by presburger
    moreover have "bit_length 0 = 0" by (subst bit_length.simps) simp
    ultimately show ?thesis using bl by simp
  next
    case False
    then have p: "0 < i div 2" using "1.prems" by presburger
    with "1.IH" "1.prems" have IH: "0 < bit_length (i div 2)"
      "2 ^ (bit_length (i div 2) - 1) \<le> i div 2" "i div 2 < 2 ^ bit_length (i div 2)"
      by simp_all
    obtain b where b: "bit_length (i div 2) = Suc b" using IH(1) by (cases "bit_length (i div 2)") auto
    have t: "2 * (i div 2) \<le> i" "i < 2 * (i div 2) + 2" by presburger+
    have lo: "(2::int) ^ Suc b \<le> i" using IH(2) b t(1) by simp
    have hi: "i < 2 ^ Suc (Suc b)" using IH(3) b t(2) by simp
    show ?thesis using bl b lo hi by simp
  qed
qed

lemma isqrt_bounds:
  "0 \<le> i \<Longrightarrow> 0 \<le> isqrt i \<and> isqrt i * isqrt i \<le> i \<and> i < (isqrt i + 1) * (isqrt i + 1)"
proof (induction i rule: isqrt.induct)
  case (1 i)
  show ?case
  proof (cases "i < 2")
    case True
    then have "isqrt i = i" by (subst isqrt.simps) simp
    moreover have "i = 0 \<or> i = 1" using True "1.prems" by linarith
    ultimately show ?thesis by auto
  next
    case False
    let ?q = "isqrt (i div 4)"
    let ?r = "2 * ?q"
    have "0 \<le> i div 4" using "1.prems" by simp
    with "1.IH" False have IH: "0 \<le> ?q" "?q * ?q \<le> i div 4"
      "i div 4 < (?q + 1) * (?q + 1)" by simp_all
    have lo: "?r * ?r \<le> i"
    proof -
      have "?r * ?r = 4 * (?q * ?q)" by simp
      also have "\<dots> \<le> 4 * (i div 4)" using IH(2) by simp
      also have "\<dots> \<le> i" by presburger
      finally show ?thesis .
    qed
    have hi: "i < (?r + 2) * (?r + 2)"
    proof -
      have "i < 4 * (i div 4) + 4" by presburger
      also have "\<dots> \<le> 4 * ((?q + 1) * (?q + 1))" using IH(3) by simp
      also have "\<dots> = (?r + 2) * (?r + 2)" by (simp add: algebra_simps)
      finally show ?thesis .
    qed
    have eq: "isqrt i = (if (?r + 1) * (?r + 1) \<le> i then ?r + 1 else ?r)"
      using False by (subst isqrt.simps) (simp add: Let_def)
    show ?thesis
    proof (cases "(?r + 1) * (?r + 1) \<le> i")
      case True
      with eq have "isqrt i = ?r + 1" by simp
      with True hi IH(1) show ?thesis by (simp add: algebra_simps)
    next
      case False
      with eq have "isqrt i = ?r" by simp
      with False lo IH(1) show ?thesis by simp
    qed
  qed
qed

text \<open>Rounding to the nearest integer root: characterisation and uniqueness.\<close>

lemma nearest_root_unique:
  fixes r k :: int
  assumes "0 \<le> r" "0 \<le> k" "r * r - r < y" "y \<le> r * r + r" "k * k - k < y" "y \<le> k * k + k"
  shows "r = k"
proof (rule ccontr)
  assume "r \<noteq> k"
  then consider "r + 1 \<le> k" | "k + 1 \<le> r" by linarith
  then show False
  proof cases
    case 1
    then have "(r + 1) * r \<le> k * (k - 1)" using assms(1) by (intro mult_mono) auto
    then have "r * r + r \<le> k * k - k" by (simp add: algebra_simps)
    with assms show False by linarith
  next
    case 2
    then have "(k + 1) * k \<le> r * (r - 1)" using assms(2) by (intro mult_mono) auto
    then have "k * k + k \<le> r * r - r" by (simp add: algebra_simps)
    with assms show False by linarith
  qed
qed

lemma float_of_int_small: "\<bar>i\<bar> < 2 ^ 53 \<Longrightarrow> float_of_int i = Inr (Dbl i 0)"
  by (simp add: float_of_int_def)

lemma sqrt_double_struct:
  assumes mm: "0 < mm" "mm \<le> 2 ^ 53" and e0: "0 \<le> e"
  shows "\<exists>r' y s h. sqrt_double (Dbl mm e) = Inr (Dbl r' (int h - int s)) \<and>
           mm * 2 ^ nat e * 4 ^ s = y * 4 ^ h \<and> 2 ^ 104 \<le> y \<and> y < 2 ^ 106 \<and>
           r' * r' - r' < y \<and> y \<le> r' * r' + r' \<and> 2 ^ 52 \<le> r' \<and> r' \<le> 2 ^ 53"
proof -
  define m2 where "m2 = (if even e then mm else 2 * mm)"
  define e2 where "e2 = (if even e then e else e - 1)"
  define h where "h = nat (e2 div 2)"
  define L where "L = bit_length m2"
  define s where "s = (106 - L) div 2"
  define y where "y = m2 * 4 ^ s"
  define r where "r = isqrt y"
  define r' where "r' = (if r < y - r * r then r + 1 else r)"
  have m2: "0 < m2" "m2 \<le> 2 ^ 54" using mm by (auto simp: m2_def)
  have e2: "0 \<le> e2" "even e2" using e0 unfolding e2_def by presburger+
  then have ih: "int h = e2 div 2" by (simp add: h_def)
  have val: "mm * 2 ^ nat e = m2 * 4 ^ h"
  proof (cases "even e")
    case True
    then have "nat e = 2 * h" using e0 by (auto simp: h_def e2_def elim!: evenE)
    then have "(2::int) ^ nat e = 4 ^ h" by (simp add: power_mult)
    with True show ?thesis by (simp add: m2_def)
  next
    case False
    then have "nat e = Suc (2 * h)" using e0 by (auto simp: h_def e2_def elim!: oddE)
    then have "(2::int) ^ nat e = 2 * 4 ^ h" by (simp add: power_mult)
    with False show ?thesis by (simp add: m2_def)
  qed
  from bit_length_bounds [OF m2(1)] have bl: "0 < L" "2 ^ (L - 1) \<le> m2" "m2 < 2 ^ L"
    by (simp_all add: L_def)
  have L55: "L \<le> 55"
  proof (rule ccontr)
    assume "\<not> L \<le> 55"
    then have "55 \<le> L - 1" by simp
    then have "(2::int) ^ 55 \<le> 2 ^ (L - 1)" by (intro power_increasing) auto
    with bl(2) m2(2) show False by simp
  qed
  have s2: "L + 2 * s \<le> 106" "104 \<le> L - 1 + 2 * s" using L55 bl(1) by (simp_all add: s_def)
  have four: "(4::int) ^ s = 2 ^ (2 * s)" by (simp add: power_mult)
  have yhi: "y < 2 ^ 106"
  proof -
    have "y < 2 ^ L * 2 ^ (2 * s)" unfolding y_def four using bl(3) by (intro mult_strict_right_mono) auto
    also have "\<dots> = 2 ^ (L + 2 * s)" by (simp add: power_add)
    also have "\<dots> \<le> 2 ^ 106" using s2(1) by (intro power_increasing) auto
    finally show ?thesis .
  qed
  have ylo: "2 ^ 104 \<le> y"
  proof -
    have "(2::int) ^ 104 \<le> 2 ^ (L - 1 + 2 * s)" using s2(2) by (intro power_increasing) auto
    also have "\<dots> = 2 ^ (L - 1) * 2 ^ (2 * s)" by (simp add: power_add)
    also have "\<dots> \<le> y" unfolding y_def four using bl(2) by (intro mult_right_mono) auto
    finally show ?thesis .
  qed
  have y0: "0 \<le> y" using ylo by (simp add: order.trans [of 0 "2 ^ 104"])
  from isqrt_bounds [OF y0] have rb: "0 \<le> r" "r * r \<le> y" "y < (r + 1) * (r + 1)"
    by (simp_all add: r_def)
  have rlo: "2 ^ 52 \<le> r"
  proof (rule ccontr)
    assume "\<not> 2 ^ 52 \<le> r"
    then have "r + 1 \<le> 2 ^ 52" by simp
    then have "(r + 1) * (r + 1) \<le> 2 ^ 52 * 2 ^ 52" using rb(1) by (intro mult_mono) auto
    with rb(3) ylo show False by simp
  qed
  have rhi: "r < 2 ^ 53"
  proof (rule ccontr)
    assume "\<not> r < 2 ^ 53"
    then have "2 ^ 53 * 2 ^ 53 \<le> r * r" by (intro mult_mono) auto
    with rb(2) yhi show False by simp
  qed
  have near: "r' * r' - r' < y" "y \<le> r' * r' + r'" "2 ^ 52 \<le> r'" "r' \<le> 2 ^ 53"
    using rb rlo rhi by (auto simp: r'_def algebra_simps)
  have nz: "\<not> mm < 0" "mm \<noteq> 0" using mm by simp_all
  have "sqrt_double (Dbl mm e) = Inr (Dbl r' (e2 div 2 - int s))"
    using nz
    by (simp add: sqrt_double_def Let_def m2_def e2_def L_def s_def y_def r_def r'_def
        del: power_numeral)
  then have "sqrt_double (Dbl mm e) = Inr (Dbl r' (int h - int s))" by (simp add: ih)
  moreover have "mm * 2 ^ nat e * 4 ^ s = y * 4 ^ h" by (simp add: val y_def)
  ultimately show ?thesis using ylo yhi near by blast
qed

lemma seed_core:
  fixes v y r' a0 :: int and T :: nat
  assumes y: "y = v * 4 ^ T" and near: "r' * r' - r' < y" "y \<le> r' * r' + r'"
      and fl: "a0 * 2 ^ T < r'" "r' < (a0 + 1) * 2 ^ T" and a0: "0 \<le> a0"
  shows "a0 * a0 < v" "v < (a0 + 1) * (a0 + 1)"
proof -
  let ?R = "a0 * 2 ^ T" and ?S = "(a0 + 1) * 2 ^ T"
  have four: "(4::int) ^ T = 2 ^ T * 2 ^ T" by (simp add: power_mult_distrib [symmetric])
  have R0: "0 \<le> ?R" using a0 by simp
  have "?R * ?R \<le> (?R + 1) * ?R" using R0 by (intro mult_right_mono) auto
  also have "\<dots> \<le> r' * (r' - 1)" using fl(1) R0 by (intro mult_mono) auto
  also have "\<dots> = r' * r' - r'" by (simp add: algebra_simps)
  also have "\<dots> < v * 4 ^ T" using near(1) y by simp
  finally have "(a0 * a0) * 4 ^ T < v * 4 ^ T" by (simp add: four algebra_simps)
  then show "a0 * a0 < v" by simp
  have S0: "0 < ?S" using a0 by simp
  have "v * 4 ^ T \<le> r' * r' + r'" using near(2) y by simp
  also have "\<dots> = r' * (r' + 1)" by (simp add: algebra_simps)
  also have "\<dots> \<le> (?S - 1) * ?S" using fl R0 by (intro mult_mono) auto
  also have "\<dots> < ?S * ?S" using S0 by (intro mult_strict_right_mono) auto
  finally have "v * 4 ^ T < ((a0 + 1) * (a0 + 1)) * 4 ^ T" by (simp add: four algebra_simps)
  then show "v < (a0 + 1) * (a0 + 1)" by simp
qed

lemma round_to_root:
  fixes v y r' k :: int and T :: nat
  assumes y: "y = v * 4 ^ T" and near: "r' * r' - r' < y" "y \<le> r' * r' + r'" "0 \<le> r'"
      and k: "0 < k" "\<bar>v - k * k\<bar> * 2 ^ T < k"
  shows "r' = k * 2 ^ T"
proof -
  let ?R = "k * 2 ^ T"
  have four: "(4::int) ^ T = 2 ^ T * 2 ^ T" by (simp add: power_mult_distrib [symmetric])
  have R0: "0 < ?R" using k(1) by simp
  have "\<bar>v - k * k\<bar> * 2 ^ T * 2 ^ T < k * 2 ^ T"
    using k(2) by (intro mult_strict_right_mono) auto
  moreover have "\<bar>y - ?R * ?R\<bar> = \<bar>v - k * k\<bar> * 2 ^ T * 2 ^ T"
  proof -
    have "y - ?R * ?R = (v - k * k) * (2 ^ T * 2 ^ T)" by (simp add: y four algebra_simps)
    then show ?thesis by (simp add: abs_mult)
  qed
  ultimately have "\<bar>y - ?R * ?R\<bar> < ?R" by simp
  then have "?R * ?R - ?R < y" "y \<le> ?R * ?R + ?R" by linarith+
  with nearest_root_unique [of r' ?R y] near R0 show ?thesis by simp
qed

lemma seed_large_core:
  fixes n v y r' mm k :: int and e' T :: nat
  assumes v: "v = mm * 2 ^ Suc e'" "2 ^ 52 \<le> mm" "2 * \<bar>v - n\<bar> \<le> 2 ^ Suc e'"
      and y: "y = v * 4 ^ T" "y < 2 ^ 106"
      and near: "r' * r' - r' < y" "y \<le> r' * r' + r'" "0 \<le> r'"
      and k: "0 \<le> k" "(n \<le> k * k \<and> k * k < v) \<or> (v < k * k \<and> k * k \<le> n)"
  shows "r' = k * 2 ^ T"
proof -
  have d: "\<bar>v - n\<bar> \<le> 2 ^ e'" using v(3) by simp
  have vlo: "2 ^ (53 + e') \<le> v"
  proof -
    have "(2::int) ^ 52 * 2 ^ Suc e' \<le> mm * 2 ^ Suc e'" using v(2) by (intro mult_right_mono) auto
    then show ?thesis by (simp add: v(1) power_add)
  qed
  have "(2::int) ^ (53 + e' + 2 * T) = 2 ^ (53 + e') * 4 ^ T" by (simp add: power_add power_mult)
  also have "\<dots> \<le> v * 4 ^ T" using vlo by (intro mult_right_mono) auto
  also have "\<dots> < 2 ^ 106" using y by simp
  finally have "53 + e' + 2 * T < 106" by (simp only: power_strict_increasing_iff [of "2::int"])
  then have eT: "e' + 2 * T \<le> 52" by simp
  let ?P = "(2::int) ^ (e' + T)"
  have PP: "?P * ?P \<le> 2 ^ (52 + e')"
  proof -
    have "?P * ?P = 2 ^ (e' + T + (e' + T))" by (simp only: power_add)
    also have "\<dots> \<le> 2 ^ (52 + e')" using eT by (intro power_increasing) auto
    finally show ?thesis .
  qed
  have kk: "\<bar>v - k * k\<bar> \<le> 2 ^ e'" "v - 2 ^ e' \<le> k * k" using k(2) d by auto
  have "(2::int) ^ e' < 2 ^ (52 + e')" by (intro power_strict_increasing) auto
  moreover have "(2::int) ^ (53 + e') = 2 * 2 ^ (52 + e')" by (simp add: power_add)
  ultimately have "2 ^ (52 + e') < v - 2 ^ e'" using vlo by linarith
  with PP kk(2) have lt: "?P * ?P < k * k" by linarith
  have Pk: "?P < k"
  proof (rule ccontr)
    assume "\<not> ?P < k"
    then have "k * k \<le> ?P * ?P" using k(1) by (intro mult_mono) auto
    with lt show False by simp
  qed
  then have k0: "0 < k" by (simp add: order.strict_trans1 [of 0 ?P])
  have "\<bar>v - k * k\<bar> * 2 ^ T \<le> 2 ^ e' * 2 ^ T" using kk(1) by (intro mult_right_mono) auto
  also have "\<dots> = ?P" by (simp add: power_add)
  finally have "\<bar>v - k * k\<bar> * 2 ^ T < k" using Pk by simp
  from round_to_root [OF y(1) near k0 this] show ?thesis .
qed

lemma float_of_int_big:
  assumes big: "2 ^ 53 \<le> \<bar>i\<bar>"
  shows "\<exists>q' e. 1 \<le> e \<and> 2 ^ 52 \<le> q' \<and> q' \<le> 2 ^ 53 \<and> 2 * \<bar>q' * 2 ^ e - \<bar>i\<bar>\<bar> \<le> 2 ^ e \<and>
           float_of_int i = (if 2 ^ 1024 - 2 ^ 970 \<le> \<bar>i\<bar> then Inl OverflowError
                             else Inr (Dbl (sgn i * q') (int e)))"
proof -
  define v where "v = \<bar>i\<bar>"
  define L where "L = bit_length v"
  define e where "e = L - 53"
  define q where "q = v div 2 ^ e"
  define r where "r = v mod 2 ^ e"
  define q' where "q' = (if 2 ^ (e - 1) < r \<or> (r = 2 ^ (e - 1) \<and> odd q) then q + 1 else q)"
  have big': "2 ^ 53 \<le> v" using big by (simp add: v_def)
  have vpos: "0 < v" using big' by (simp add: order.strict_trans2 [of 0 "2 ^ 53"])
  from bit_length_bounds [OF vpos] have bl: "0 < L" "2 ^ (L - 1) \<le> v" "v < 2 ^ L"
    by (simp_all add: L_def)
  have L54: "54 \<le> L"
  proof (rule ccontr)
    assume "\<not> 54 \<le> L"
    then have "L \<le> 53" by simp
    then have "(2::int) ^ L \<le> 2 ^ 53" by (intro power_increasing) auto
    with bl(3) big' show False by linarith
  qed
  then have e1: "1 \<le> e" and Le: "L = 53 + e" "L - 1 = 52 + e" by (simp_all add: e_def)
  have two: "(2::int) ^ e = 2 * 2 ^ (e - 1)" using e1 by (cases e) simp_all
  have iqr: "v = q * 2 ^ e + r" unfolding q_def r_def by (rule div_mult_mod_eq [symmetric])
  have r0: "0 \<le> r" "r < 2 ^ e" by (simp_all add: r_def)
  have "2 ^ 52 * 2 ^ e \<le> v" using bl(2) Le by (simp add: power_add)
  then have "(2 ^ 52 * 2 ^ e) div 2 ^ e \<le> v div 2 ^ e" by (intro zdiv_mono1) auto
  then have qlo: "2 ^ 52 \<le> q" by (simp add: q_def)
  have qhi: "q < 2 ^ 53"
  proof (rule ccontr)
    assume "\<not> q < 2 ^ 53"
    then have "2 ^ 53 * 2 ^ e \<le> q * (2::int) ^ e" by (intro mult_right_mono) auto
    also have "\<dots> \<le> v" using iqr r0 by linarith
    finally show False using bl(3) Le by (simp add: power_add)
  qed
  have q'b: "2 ^ 52 \<le> q'" "q' \<le> 2 ^ 53" "q \<le> q'" using qlo qhi by (auto simp: q'_def)
  have err: "2 * \<bar>q' * 2 ^ e - v\<bar> \<le> 2 ^ e"
  proof (cases "2 ^ (e - 1) < r \<or> (r = 2 ^ (e - 1) \<and> odd q)")
    case True
    then have "q' = q + 1" by (simp add: q'_def)
    then have "q' * 2 ^ e - v = 2 ^ e - r" using iqr by (simp add: algebra_simps)
    moreover have "2 ^ (e - 1) \<le> r" using True by auto
    ultimately show ?thesis using r0 two by simp
  next
    case False
    then have "q' = q" by (simp add: q'_def)
    then have "q' * 2 ^ e - v = - r" using iqr by simp
    moreover have "r \<le> 2 ^ (e - 1)" using False by auto
    ultimately show ?thesis using r0 two by simp
  qed
  have p1024: "(2::int) ^ 1024 = 2 ^ 53 * 2 ^ 971" "(2::int) ^ 1024 = 2 ^ 52 * 2 ^ 972"
    "(2::int) ^ 971 = 2 * 2 ^ 970"
    by (simp_all only: power_add [symmetric] power_Suc [symmetric]) simp_all
  have ov: "(2 ^ 1024 \<le> q' * 2 ^ e) \<longleftrightarrow> (2 ^ 1024 - 2 ^ 970 \<le> v)"
  proof
    assume a: "2 ^ 1024 \<le> q' * 2 ^ e"
    have e971: "971 \<le> e"
    proof (rule ccontr)
      assume "\<not> 971 \<le> e"
      then have "e \<le> 970" by simp
      then have "(2::int) ^ e \<le> 2 ^ 970" by (intro power_increasing) auto
      then have "q' * 2 ^ e \<le> 2 ^ 53 * 2 ^ 970" using q'b by (intro mult_mono) auto
      also have "\<dots> < 2 ^ 53 * 2 ^ 971" by simp
      finally show False using a p1024(1) by simp
    qed
    show "2 ^ 1024 - 2 ^ 970 \<le> v"
    proof (cases "e = 971")
      case True
      have "q' * 2 ^ 971 \<le> 2 ^ 53 * 2 ^ 971" using q'b by (intro mult_right_mono) auto
      with a True p1024(1) have "q' * 2 ^ 971 = 2 ^ 1024" by simp
      moreover have "2 * \<bar>q' * 2 ^ 971 - v\<bar> \<le> 2 * 2 ^ 970" using err True p1024(3) by simp
      ultimately show ?thesis by simp
    next
      case False
      with e971 have "972 \<le> e" by simp
      then have "(2::int) ^ 972 \<le> 2 ^ e" by (intro power_increasing) auto
      then have "2 ^ 52 * 2 ^ 972 \<le> q * (2::int) ^ e" using qlo by (intro mult_mono) auto
      also have "\<dots> \<le> v" using iqr r0 by linarith
      finally show ?thesis using p1024(2) by simp
    qed
  next
    assume b: "2 ^ 1024 - 2 ^ 970 \<le> v"
    have L1024: "1024 \<le> L"
    proof (rule ccontr)
      assume "\<not> 1024 \<le> L"
      then have "L \<le> 1023" by simp
      then have "(2::int) ^ L \<le> 2 ^ 1023" by (intro power_increasing) auto
      with bl(3) b show False by simp
    qed
    then have e971: "971 \<le> e" by (simp add: e_def)
    show "2 ^ 1024 \<le> q' * 2 ^ e"
    proof (cases "e = 971")
      case True
      have "(2 ^ 53 - 1) * 2 ^ 971 \<le> v" using b p1024 by (simp add: algebra_simps)
      then have dv: "((2 ^ 53 - 1) * 2 ^ 971) div 2 ^ 971 \<le> v div 2 ^ 971"
        by (intro zdiv_mono1) auto
      have c: "((2 ^ 53 - 1) * 2 ^ 971) div 2 ^ 971 = (2 ^ 53 - 1 :: int)"
        by (rule nonzero_mult_div_cancel_right) simp
      have "2 ^ 53 - 1 \<le> q" using dv unfolding q_def True c .
      with qhi have q: "q = 2 ^ 53 - 1" by simp
      then have oq: "odd q" by simp
      have "r = v - (2 ^ 53 - 1) * 2 ^ 971" using iqr q True by simp
      then have "2 ^ 970 \<le> r" using b p1024 by (simp add: algebra_simps)
      then have "2 ^ (e - 1) \<le> r" using True by simp
      then have "q' = q + 1" using oq by (auto simp: q'_def)
      then show ?thesis using q True p1024(1) by simp
    next
      case False
      with e971 have "972 \<le> e" by simp
      then have "(2::int) ^ 972 \<le> 2 ^ e" by (intro power_increasing) auto
      then have "2 ^ 52 * 2 ^ 972 \<le> q' * (2::int) ^ e" using q'b by (intro mult_mono) auto
      then show ?thesis using p1024(2) by simp
    qed
  qed
  have nb: "\<not> v < 2 ^ 53" using big' by simp
  have "float_of_int i = (if v < 2 ^ 53 then Inr (Dbl i 0)
                          else if 2 ^ 1024 \<le> q' * 2 ^ e then Inl OverflowError
                          else Inr (Dbl (sgn i * q') (int e)))"
    unfolding float_of_int_def Let_def q'_def q_def r_def e_def L_def v_def ..
  then have "float_of_int i = (if 2 ^ 1024 \<le> q' * 2 ^ e then Inl OverflowError
                          else Inr (Dbl (sgn i * q') (int e)))"
    by (simp only: nb if_False)
  then have "float_of_int i = (if 2 ^ 1024 - 2 ^ 970 \<le> \<bar>i\<bar> then Inl OverflowError
                          else Inr (Dbl (sgn i * q') (int e)))"
    unfolding ov v_def .
  with e1 q'b err show ?thesis unfolding v_def by blast
qed

subsection \<open>The seed a0 is the integer square root\<close>

lemma math_sqrt_neg:
  assumes "i < 0"
  shows "math_sqrt i = Inl (if 2 ^ 1024 - 2 ^ 970 \<le> - i then OverflowError else ValueError)"
proof (cases "\<bar>i\<bar> < 2 ^ 53")
  case True
  then have "- i < 2 ^ 53" using assms by simp
  moreover have "(2::int) ^ 53 \<le> 2 ^ 1024 - 2 ^ 970" by simp
  ultimately have "\<not> 2 ^ 1024 - 2 ^ 970 \<le> - i" by linarith
  then show ?thesis
    using assms float_of_int_small [OF True] by (simp add: math_sqrt_def sqrt_double_def)
next
  case False
  then have big: "2 ^ 53 \<le> \<bar>i\<bar>" by simp
  from float_of_int_big [OF big] obtain q' e where
    q: "2 ^ 52 \<le> q'"
    and f: "float_of_int i = (if 2 ^ 1024 - 2 ^ 970 \<le> \<bar>i\<bar> then Inl OverflowError
                             else Inr (Dbl (sgn i * q') (int e)))" by blast
  have "0 < q'" using q by (simp add: order.strict_trans2 [of 0 "2 ^ 52"])
  then have "sgn i * q' < 0" using assms by simp
  moreover have "\<bar>i\<bar> = - i" using assms by simp
  ultimately show ?thesis using f by (simp add: math_sqrt_def sqrt_double_def)
qed

lemma float_of_int_pos:
  assumes "0 < n" "float_of_int n = Inr f"
  shows "\<exists>mm e. f = Dbl mm (int e) \<and> 0 < mm \<and> mm \<le> 2 ^ 53 \<and>
           ((n < 2 ^ 53 \<and> e = 0 \<and> mm = n) \<or>
            (2 ^ 53 \<le> n \<and> 1 \<le> e \<and> 2 ^ 52 \<le> mm \<and> 2 * \<bar>mm * 2 ^ e - n\<bar> \<le> 2 ^ e))"
proof (cases "n < 2 ^ 53")
  case True
  then have "\<bar>n\<bar> < 2 ^ 53" using assms(1) by simp
  from float_of_int_small [OF this] assms have "f = Dbl n (int 0)" by simp
  with True assms(1) show ?thesis by (intro exI [of _ n] exI [of _ 0]) simp
next
  case False
  then have big: "2 ^ 53 \<le> \<bar>n\<bar>" by simp
  from float_of_int_big [OF big] obtain q' e where
    q: "1 \<le> e" "2 ^ 52 \<le> q'" "q' \<le> 2 ^ 53" "2 * \<bar>q' * 2 ^ e - \<bar>n\<bar>\<bar> \<le> 2 ^ e"
    and f: "float_of_int n = (if 2 ^ 1024 - 2 ^ 970 \<le> \<bar>n\<bar> then Inl OverflowError
                             else Inr (Dbl (sgn n * q') (int e)))" by blast
  have q0: "0 < q'" using q(2) by (simp add: order.strict_trans2 [of 0 "2 ^ 52"])
  from f assms have "f = Dbl q' (int e)" by (simp split: if_splits)
  with q q0 False assms(1) show ?thesis by (intro exI [of _ q'] exI [of _ e]) simp
qed

lemma seed_exact:
  assumes ms: "math_sqrt n = Inr x"
      and ni: "\<not> double_eq_int x (int_of_double (floor_double x))"
  defines "a0 \<equiv> int_of_double (floor_double x)"
  shows "1 \<le> a0" "a0\<^sup>2 < n" "n < (a0 + 1)\<^sup>2" "a0 < 2 ^ 52"
proof -
  have n0: "0 < n"
  proof (rule ccontr)
    assume "\<not> 0 < n"
    then consider "n < 0" | "n = 0" by linarith
    then show False
    proof cases
      case 1
      from math_sqrt_neg [OF this] ms show False by simp
    next
      case 2
      with ms have "x = Dbl 0 0"
        by (simp add: math_sqrt_def float_of_int_def sqrt_double_def)
      with ni show False
        by (simp add: double_eq_int_def floor_double_def int_of_double_def)
    qed
  qed
  from ms obtain f where f: "float_of_int n = Inr f" "sqrt_double f = Inr x"
    by (auto simp: math_sqrt_def split: sum.splits)
  from float_of_int_pos [OF n0 f(1)] obtain mm e where
    fe: "f = Dbl mm (int e)" "0 < mm" "mm \<le> 2 ^ 53"
    and cs: "(n < 2 ^ 53 \<and> e = 0 \<and> mm = n) \<or>
             (2 ^ 53 \<le> n \<and> 1 \<le> e \<and> 2 ^ 52 \<le> mm \<and> 2 * \<bar>mm * 2 ^ e - n\<bar> \<le> 2 ^ e)"
    by blast
  define v where "v = mm * 2 ^ e"
  from sqrt_double_struct [OF fe(2,3), of "int e"] f(2) fe(1) obtain r' y s h where
    x: "x = Dbl r' (int h - int s)" and vy: "v * 4 ^ s = y * 4 ^ h"
    and yb: "2 ^ 104 \<le> y" "y < 2 ^ 106"
    and near: "r' * r' - r' < y" "y \<le> r' * r' + r'"
    and rb: "2 ^ 52 \<le> r'" "r' \<le> 2 ^ 53"
    by (auto simp: v_def)
  have r0: "0 < r'" using rb(1) by (simp add: order.strict_trans2 [of 0 "2 ^ 52"])
  have hs: "h < s"
  proof (rule ccontr)
    assume "\<not> h < s"
    then have "0 \<le> int h - int s" by simp
    then have "double_eq_int x (int_of_double (floor_double x))"
      by (simp add: x double_eq_int_def floor_double_def int_of_double_def)
    with ni show False by simp
  qed
  define T where "T = s - h"
  have T1: "1 \<le> T" and sT: "s = T + h" using hs by (simp_all add: T_def)
  have ex: "int h - int s < 0" "nat (- (int h - int s)) = T" using hs by (simp_all add: T_def)
  have "v * 4 ^ T * 4 ^ h = y * 4 ^ h" using vy by (simp add: sT power_add algebra_simps)
  then have y: "y = v * 4 ^ T" by simp
  have a0: "a0 = r' div 2 ^ T"
    using ex by (simp add: a0_def x floor_double_def int_of_double_def)
  have "\<not> double_eq_int x a0" using ni by (simp add: a0_def)
  then have "\<not> r' = a0 * 2 ^ T"
    using ex by (simp add: x double_eq_int_def)
  then have ndv: "r' mod 2 ^ T \<noteq> 0" unfolding a0 by (metis div_mult_mod_eq add.right_neutral)
  have dm: "r' = a0 * 2 ^ T + r' mod 2 ^ T" unfolding a0 by (rule div_mult_mod_eq [symmetric])
  have m0: "0 \<le> r' mod 2 ^ T" "r' mod 2 ^ T < 2 ^ T" by simp_all
  have ex2: "(a0 + 1) * 2 ^ T = a0 * 2 ^ T + 2 ^ T" by (simp add: algebra_simps)
  have fl: "a0 * 2 ^ T < r'" "r' < (a0 + 1) * 2 ^ T"
    unfolding ex2 using dm m0 ndv by linarith+
  have a0nn: "0 \<le> a0" unfolding a0 using r0 by (simp add: pos_imp_zdiv_nonneg_iff)
  note sc = seed_core [OF y near fl a0nn]
  have sq: "a0 * a0 < n \<and> n < (a0 + 1) * (a0 + 1)"
  proof (cases "n < 2 ^ 53")
    case True
    with cs have "v = n" by (auto simp: v_def)
    with sc show ?thesis by simp
  next
    case False
    with cs have big: "1 \<le> e" "2 ^ 52 \<le> mm" "2 * \<bar>v - n\<bar> \<le> 2 ^ e" by (auto simp: v_def)
    then obtain e' where e': "e = Suc e'" by (cases e) auto
    note lc = seed_large_core [OF v_def [unfolded e'] big(2) big(3) [unfolded e'] y yb(2) near]
    have A: "a0 * a0 < n"
    proof (rule ccontr)
      assume "\<not> a0 * a0 < n"
      then have "(n \<le> a0 * a0 \<and> a0 * a0 < v) \<or> (v < a0 * a0 \<and> a0 * a0 \<le> n)"
        using sc(1) by simp
      from lc [OF _ a0nn this] r0 fl(1) show False by simp
    qed
    have B: "n < (a0 + 1) * (a0 + 1)"
    proof (rule ccontr)
      assume "\<not> n < (a0 + 1) * (a0 + 1)"
      then have c: "(n \<le> (a0 + 1) * (a0 + 1) \<and> (a0 + 1) * (a0 + 1) < v) \<or>
                 (v < (a0 + 1) * (a0 + 1) \<and> (a0 + 1) * (a0 + 1) \<le> n)"
        using sc(2) by simp
      have "0 \<le> a0 + 1" using a0nn by simp
      from lc [OF _ this c] r0 fl(2) show False by simp
    qed
    from A B show ?thesis ..
  qed
  then show "a0\<^sup>2 < n" "n < (a0 + 1)\<^sup>2" by (simp_all add: power2_eq_square)
  show "1 \<le> a0"
  proof (rule ccontr)
    assume "\<not> 1 \<le> a0"
    with a0nn have "a0 = 0" by simp
    with sq n0 show False by simp
  qed
  have "a0 * 2 ^ 1 \<le> a0 * 2 ^ T" using a0nn T1 by (intro mult_left_mono power_increasing) auto
  with fl(1) rb(2) show "a0 < 2 ^ 52" by simp
qed

subsection \<open>Perfect squares, negative arguments, totality\<close>

lemma math_sqrt_square:
  assumes k: "0 \<le> k" "k < 2 ^ 53"
  shows "\<exists>x. math_sqrt (k * k) = Inr x \<and> int_of_double (floor_double x) = k \<and> double_eq_int x k"
proof (cases "k = 0")
  case True
  then show ?thesis
    by (simp add: math_sqrt_def float_of_int_def sqrt_double_def floor_double_def
        int_of_double_def double_eq_int_def)
next
  case False
  with k have k0: "0 < k" by simp
  define n where "n = k * k"
  have n0: "0 < n" using k0 by (simp add: n_def)
  have "k * k \<le> (2 ^ 53 - 1) * (2 ^ 53 - 1)" using k by (intro mult_mono) auto
  then have nhi: "n \<le> 2 ^ 106 - 2 ^ 54 + 1" by (simp add: n_def)
  have "\<exists>f. float_of_int n = Inr f"
  proof (cases "\<bar>n\<bar> < 2 ^ 53")
    case True
    from float_of_int_small [OF this] show ?thesis by blast
  next
    case False
    then have "2 ^ 53 \<le> \<bar>n\<bar>" by simp
    from float_of_int_big [OF this] obtain q' e where
      "float_of_int n = (if 2 ^ 1024 - 2 ^ 970 \<le> \<bar>n\<bar> then Inl OverflowError
                             else Inr (Dbl (sgn n * q') (int e)))" by blast
    moreover have "\<not> 2 ^ 1024 - 2 ^ 970 \<le> \<bar>n\<bar>" using nhi n0 by simp
    ultimately show ?thesis by simp
  qed
  then obtain f where f: "float_of_int n = Inr f" by blast
  from float_of_int_pos [OF n0 f] obtain mm e where
    fe: "f = Dbl mm (int e)" "0 < mm" "mm \<le> 2 ^ 53"
    and cs: "(n < 2 ^ 53 \<and> e = 0 \<and> mm = n) \<or>
             (2 ^ 53 \<le> n \<and> 1 \<le> e \<and> 2 ^ 52 \<le> mm \<and> 2 * \<bar>mm * 2 ^ e - n\<bar> \<le> 2 ^ e)"
    by blast
  define v where "v = mm * 2 ^ e"
  from sqrt_double_struct [OF fe(2,3), of "int e"] obtain r' y s h where
    x: "sqrt_double (Dbl mm (int e)) = Inr (Dbl r' (int h - int s))" and vy: "v * 4 ^ s = y * 4 ^ h"
    and yb: "2 ^ 104 \<le> y" "y < 2 ^ 106"
    and near: "r' * r' - r' < y" "y \<le> r' * r' + r'"
    and rb: "2 ^ 52 \<le> r'" "r' \<le> 2 ^ 53"
    by (auto simp: v_def)
  have r0: "0 \<le> r'" using rb(1) by (simp add: order.trans [of 0 "2 ^ 52"])
  have vhi: "v < 2 ^ 106"
  proof (cases "n < 2 ^ 53")
    case True
    with cs have "v = n" by (auto simp: v_def)
    with True show ?thesis by simp
  next
    case False
    with cs have big: "1 \<le> e" "2 ^ 52 \<le> mm" "2 * \<bar>v - n\<bar> \<le> 2 ^ e" by (auto simp: v_def)
    then obtain e' where e': "e = Suc e'" by (cases e) auto
    have d: "\<bar>v - n\<bar> \<le> 2 ^ e'" using big(3) e' by simp
    have "(2::int) ^ 52 * 2 ^ Suc e' \<le> v"
      unfolding v_def e' using big(2) by (intro mult_right_mono) auto
    then have vlo: "2 ^ (53 + e') \<le> v" by (simp add: power_add)
    have "(2::int) ^ e' < 2 ^ (52 + e')" by (intro power_strict_increasing) auto
    moreover have "(2::int) ^ (53 + e') = 2 * 2 ^ (52 + e')" by (simp add: power_add)
    ultimately have "2 ^ (52 + e') < n" using vlo d by linarith
    then have "(2::int) ^ (52 + e') < 2 ^ 106" using nhi by simp
    then have "52 + e' < 106" by (simp only: power_strict_increasing_iff [of "2::int"])
    then have "e' \<le> 53" by simp
    then have "(2::int) ^ e' \<le> 2 ^ 53" by (intro power_increasing) auto
    with d nhi show ?thesis by (simp add: abs_le_iff)
  qed
  have hs: "h \<le> s"
  proof (rule ccontr)
    assume "\<not> h \<le> s"
    then obtain j where j: "h = Suc j + s" by (metis add_Suc less_iff_Suc_add not_le add.commute)
    have "v * 4 ^ s = (y * 4 ^ Suc j) * 4 ^ s" using vy by (simp add: j power_add algebra_simps)
    then have "v = y * 4 ^ Suc j" by simp
    moreover have "y * 4 ^ 1 \<le> y * 4 ^ Suc j"
      using yb(1) by (intro mult_left_mono power_increasing) auto
    ultimately show False using yb(1) vhi by simp
  qed
  define T where "T = s - h"
  have sT: "s = T + h" using hs by (simp add: T_def)
  have ex: "int h - int s = - int T" using hs by (simp add: T_def)
  have "v * 4 ^ T * 4 ^ h = y * 4 ^ h" using vy by (simp add: sT power_add algebra_simps)
  then have y: "y = v * 4 ^ T" by simp
  have root: "r' = k * 2 ^ T"
  proof (cases "v = n")
    case True
    then have "\<bar>v - k * k\<bar> * 2 ^ T < k" using k0 by (simp add: n_def)
    from round_to_root [OF y near r0 k0 this] show ?thesis .
  next
    case False
    then have "\<not> n < 2 ^ 53" using cs by (auto simp: v_def)
    with cs have big: "1 \<le> e" "2 ^ 52 \<le> mm" "2 * \<bar>v - n\<bar> \<le> 2 ^ e" by (auto simp: v_def)
    then obtain e' where e': "e = Suc e'" by (cases e) auto
    have c: "(n \<le> k * k \<and> k * k < v) \<or> (v < k * k \<and> k * k \<le> n)"
      using False by (auto simp: n_def)
    from seed_large_core [OF v_def [unfolded e'] big(2) big(3) [unfolded e'] y yb(2) near r0 k(1) c]
    show ?thesis .
  qed
  have ms: "math_sqrt (k * k) = Inr (Dbl (k * 2 ^ T) (- int T))"
    using f fe(1) x by (simp add: math_sqrt_def n_def root ex)
  have "int_of_double (floor_double (Dbl (k * 2 ^ T) (- int T))) = k"
    by (cases "T = 0") (simp_all add: floor_double_def int_of_double_def)
  moreover have "double_eq_int (Dbl (k * 2 ^ T) (- int T)) k"
    by (cases "T = 0") (simp_all add: double_eq_int_def)
  ultimately show ?thesis using ms by simp
qed

lemma scaled_pos: "0 < den c \<Longrightarrow> \<exists>v. scaled dig c = Inr v"
  by (simp add: scaled_def py_div_def)

lemma precSqrt_total: "\<exists>r. precSqrt n dig = Some r"
proof (cases "math_sqrt n")
  case (Inl e)
  then show ?thesis by (simp add: precSqrt_def)
next
  case (Inr x)
  show ?thesis
  proof (cases "double_eq_int x (int_of_double (floor_double x))")
    case True
    with Inr show ?thesis by (simp add: precSqrt_def)
  next
    case False
    note seed = seed_exact [OF Inr False]
    from loop_terminates_seed [OF seed, of dig] obtain c where
      c: "sqrt_loop n dig (init_state (int_of_double (floor_double x))) = Some (Inr c)" "0 < den c"
      by blast
    from scaled_pos [OF c(2), of dig] obtain v where "scaled dig c = Inr v" by blast
    with Inr False c(1) show ?thesis by (simp add: precSqrt_def)
  qed
qed

lemma general_path_small:
  assumes n: "0 \<le> n" "n < 2 ^ 52" and ns: "\<forall>k. k * k \<noteq> n"
  shows "\<exists>x. math_sqrt n = Inr x \<and> \<not> double_eq_int x (int_of_double (floor_double x))"
proof -
  have "n \<noteq> 0" using ns [rule_format, of 0] by auto
  with n have n0: "0 < n" by simp
  have f: "float_of_int n = Inr (Dbl n 0)" using n n0 by (intro float_of_int_small) simp
  have n53: "n \<le> 2 ^ 53" using n(2) by simp
  from sqrt_double_struct [OF n0 n53, of 0] obtain r' y s h where
    x: "sqrt_double (Dbl n 0) = Inr (Dbl r' (int h - int s))" and vy: "n * 4 ^ s = y * 4 ^ h"
    and yb: "2 ^ 104 \<le> y"
    and near: "r' * r' - r' < y" "y \<le> r' * r' + r'"
    and rb: "2 ^ 52 \<le> r'" "r' \<le> 2 ^ 53"
    by auto
  have ms: "math_sqrt n = Inr (Dbl r' (int h - int s))" using f x by (simp add: math_sqrt_def)
  have hs: "h + 27 \<le> s"
  proof (rule ccontr)
    assume "\<not> h + 27 \<le> s"
    then have "s \<le> h + 26" by simp
    then have "(4::int) ^ s \<le> 4 ^ (h + 26)" by (intro power_increasing) auto
    then have "n * 4 ^ s \<le> n * 4 ^ (h + 26)" using n0 by (intro mult_left_mono) auto
    also have "\<dots> = (n * 2 ^ 52) * 4 ^ h" by (simp add: power_add)
    also have "\<dots> < (2 ^ 52 * 2 ^ 52) * 4 ^ h"
      using n(2) by (intro mult_strict_right_mono) auto
    also have "\<dots> \<le> y * 4 ^ h" using yb by (intro mult_right_mono) auto
    finally show False using vy by simp
  qed
  define T where "T = s - h"
  have T27: "27 \<le> T" and sT: "s = T + h" using hs by (simp_all add: T_def)
  have ex: "int h - int s < 0" "nat (- (int h - int s)) = T" using hs by (simp_all add: T_def)
  have "n * 4 ^ T * 4 ^ h = y * 4 ^ h" using vy by (simp add: sT power_add algebra_simps)
  then have y: "y = n * 4 ^ T" by simp
  define k where "k = r' div 2 ^ T"
  have a0: "int_of_double (floor_double (Dbl r' (int h - int s))) = k"
    using ex by (simp add: k_def floor_double_def int_of_double_def)
  have "\<not> double_eq_int (Dbl r' (int h - int s)) k"
  proof
    assume "double_eq_int (Dbl r' (int h - int s)) k"
    then have r': "r' = k * 2 ^ T" using ex by (simp add: double_eq_int_def)
    have four: "(4::int) ^ T = 2 ^ T * 2 ^ T" by (simp add: power_mult_distrib [symmetric])
    have k0: "0 < k"
    proof (rule ccontr)
      assume "\<not> 0 < k"
      then have "k * 2 ^ T \<le> 0" by (simp add: mult_le_0_iff)
      with r' rb(1) show False by simp
    qed
    have "(2::int) ^ 27 \<le> 2 ^ T" using T27 by (intro power_increasing) auto
    then have big: "k * 2 ^ 27 \<le> k * 2 ^ T" using k0 by (intro mult_left_mono) auto
    then have k26: "k \<le> 2 ^ 26" using r' rb(2) by simp
    have "2 ^ 27 * 2 ^ 27 \<le> (2::int) ^ T * 2 ^ T"
      using \<open>(2::int) ^ 27 \<le> 2 ^ T\<close> by (intro mult_mono) auto
    have d: "\<bar>n - k * k\<bar> * (2 ^ T * 2 ^ T) \<le> k * 2 ^ T"
    proof -
      have "y - (k * 2 ^ T) * (k * 2 ^ T) = (n - k * k) * (2 ^ T * 2 ^ T)"
        by (simp add: y four algebra_simps)
      moreover have "\<bar>y - (k * 2 ^ T) * (k * 2 ^ T)\<bar> \<le> k * 2 ^ T"
        using near r' by (simp add: abs_le_iff)
      ultimately show ?thesis by (simp add: abs_mult)
    qed
    have "(\<bar>n - k * k\<bar> * 2 ^ T) * 2 ^ T \<le> k * 2 ^ T" using d by (simp add: algebra_simps)
    then have d': "\<bar>n - k * k\<bar> * 2 ^ T \<le> k" by simp
    have "1 \<le> \<bar>n - k * k\<bar>" using ns [rule_format, of k] by simp
    then have "1 * 2 ^ T \<le> \<bar>n - k * k\<bar> * (2::int) ^ T"
      by (intro mult_right_mono) auto
    with d' have "2 ^ T \<le> k" by linarith
    with \<open>(2::int) ^ 27 \<le> 2 ^ T\<close> k26 show False by simp
  qed
  with ms a0 show ?thesis by simp
qed

subsection \<open>Digits for two precisions\<close>

lemma scaled_floor:
  assumes "0 < den c"
  shows "scaled dig c = Inr \<lfloor>rval c * 10 ^ nat dig\<rfloor>"
proof -
  have "rval c * 10 ^ nat dig = real_of_int (num c * 10 ^ nat dig) / real_of_int (den c)"
    by (simp add: rval_def)
  then have "\<lfloor>rval c * 10 ^ nat dig\<rfloor> = num c * 10 ^ nat dig div den c"
    by (simp only: floor_divide_of_int_eq)
  then show ?thesis using assms by (simp add: scaled_def py_div_def int_of_str_pow10_Cons)
qed

lemma precSqrt_general:
  assumes ms: "math_sqrt n = Inr x"
      and ni: "\<not> double_eq_int x (int_of_double (floor_double x))"
  defines "a0 \<equiv> int_of_double (floor_double x)"
  shows "\<exists>K. stops_at n a0 dig K \<and> (\<forall>j<K. \<not> stops_at n a0 dig j) \<and>
           precSqrt n dig
             = Some (Inr (render dig (str_int \<lfloor>cval (cf_list n a0 (Suc K)) * 10 ^ nat dig\<rfloor>)))"
proof -
  note seed = seed_exact [OF ms ni, folded a0_def]
  from loop_terminates_seed [OF seed, of dig] obtain K c where
    K: "stops_at n a0 dig K" "\<forall>j<K. \<not> stops_at n a0 dig j"
    and c: "sqrt_loop n dig (init_state a0) = Some (Inr c)" "0 < den c"
       "rval c = cval (cf_list n a0 (Suc K))" by blast
  have "precSqrt n dig = Some (Inr (render dig (str_int \<lfloor>rval c * 10 ^ nat dig\<rfloor>)))"
    using ms ni c(1) scaled_floor [OF c(2), of dig] by (simp add: precSqrt_def a0_def)
  with K c(3) show ?thesis by auto
qed

lemma floor_close:
  fixes p q :: real
  assumes "\<bar>p - q\<bar> < 1"
  shows "\<bar>\<lfloor>p\<rfloor> - \<lfloor>q\<rfloor>\<bar> \<le> 1"
  using assms by linarith

lemma digits_stable_seed:
  assumes seed: "1 \<le> a0" "a0\<^sup>2 < n" "n < (a0 + 1)\<^sup>2" "a0 < 2 ^ 52"
      and d: "0 \<le> d1" "d1 < d2"
      and K1: "stops_at n a0 d1 K1" "\<forall>j<K1. \<not> stops_at n a0 d1 j"
      and K2: "stops_at n a0 d2 K2"
  shows "\<bar>\<lfloor>cval (cf_list n a0 (Suc K1)) * 10 ^ nat d1\<rfloor>
          - \<lfloor>cval (cf_list n a0 (Suc K2)) * 10 ^ nat d2\<rfloor> div 10 ^ nat (d2 - d1)\<bar> \<le> 1"
proof -
  let ?c1 = "cval (cf_list n a0 (Suc K1))" and ?c2 = "cval (cf_list n a0 (Suc K2))"
  have "nat (d1 + 1) \<le> nat (d2 + 1)" using d by simp
  then have "(10::real) ^ nat (d1 + 1) \<le> 10 ^ nat (d2 + 1)" by (intro power_increasing) auto
  then have tl: "tol d2 \<le> tol d1" unfolding tol_def by (intro divide_left_mono) auto
  have "stops_at n a0 d1 K2" using K2 tl by (auto simp: stops_at_def)
  with K1(2) have le: "K1 \<le> K2" by (metis not_le)
  then obtain j where j: "Suc K2 = Suc K1 + j" by (metis add_Suc le_Suc_ex)
  from cf_list_prefix [OF seed, of "Suc K1" j] j obtain zs where
    zs: "cf_list n a0 (Suc K2) = cf_list n a0 (Suc K1) @ zs" by auto
  from round_at [OF seed, of K1] obtain t where
    t: "cf_list n a0 (Suc K1) = cf_list n a0 K1 @ [t]" by blast
  have e2: "cf_list n a0 (Suc K2) = cf_list n a0 K1 @ t # zs" using zs t by simp
  have ne: "cf_list n a0 K1 \<noteq> []" by (rule cf_list_bounds(1) [OF seed])
  have b: "\<forall>x\<in>set (cf_list n a0 K1 @ t # zs). 1 \<le> x"
    using cf_list_bounds(2) [OF seed, of "Suc K2"] e2 by auto
  have "\<bar>?c2 - ?c1\<bar> \<le> \<bar>cval (cf_list n a0 K1) - ?c1\<bar>"
    unfolding e2 t by (rule cval_extend_between [OF ne b])
  also have "\<dots> < tol d1" using K1(1) by (simp add: stops_at_def abs_minus_commute)
  finally have close: "\<bar>?c2 - ?c1\<bar> < tol d1" .
  have p: "(10::real) ^ nat (d1 + 1) = 10 * 10 ^ nat d1" using d(1) by (simp add: nat_add_distrib)
  have "?c1 * 10 ^ nat d1 - ?c2 * 10 ^ nat d1 = (?c1 - ?c2) * 10 ^ nat d1"
    by (simp add: algebra_simps)
  then have "\<bar>?c1 * 10 ^ nat d1 - ?c2 * 10 ^ nat d1\<bar> = \<bar>?c2 - ?c1\<bar> * 10 ^ nat d1"
    by (simp add: abs_mult abs_minus_commute)
  also have "\<dots> < tol d1 * 10 ^ nat d1" using close by (intro mult_strict_right_mono) auto
  also have "\<dots> = 1 / 10" by (simp add: tol_def p)
  finally have c1: "\<bar>?c1 * 10 ^ nat d1 - ?c2 * 10 ^ nat d1\<bar> < 1" by simp
  have dd: "nat d2 = nat d1 + nat (d2 - d1)" using d by simp
  have "\<lfloor>?c2 * 10 ^ nat d2\<rfloor> div 10 ^ nat (d2 - d1)
        = \<lfloor>?c2 * 10 ^ nat d2 / real_of_int (10 ^ nat (d2 - d1))\<rfloor>"
    by (intro floor_divide_real_eq_div [symmetric]) simp
  also have "?c2 * 10 ^ nat d2 / real_of_int (10 ^ nat (d2 - d1)) = ?c2 * 10 ^ nat d1"
    by (simp add: dd power_add)
  finally have "\<lfloor>?c2 * 10 ^ nat d2\<rfloor> div 10 ^ nat (d2 - d1) = \<lfloor>?c2 * 10 ^ nat d1\<rfloor>" .
  with floor_close [OF c1] show ?thesis by simp
qed

subsection \<open>The fields a round assigns\<close>

lemma sqrt_round_fields:
  assumes "sqrt_round n s = Inr (s', c)"
  shows "st_m s' = st_d s * last (st_a s) - st_m s"
    and "st_d s \<noteq> 0"
    and "st_d s' = (n - (st_d s * last (st_a s) - st_m s)\<^sup>2) div st_d s"
  using assms
  by (auto simp: sqrt_round_def Let_def py_div_def split: sum.splits if_splits)

subsection \<open>Ratio comparisons for denominators of any sign\<close>

lemma gcd_py_abs: "\<bar>gcd_py m n\<bar> = gcd m n"
proof (induction m n rule: gcd_py.induct)
  case (1 m n)
  show ?case
  proof (cases "n = 0")
    case True
    then show ?thesis by (subst gcd_py.simps) simp
  next
    case False
    with "1.IH" have "\<bar>gcd_py n (m mod n)\<bar> = gcd n (m mod n)" by simp
    also have "\<dots> = gcd m n" by (metis gcd_red_int)
    finally show ?thesis using False by (subst gcd_py.simps) simp
  qed
qed

lemma lcm_py_nonzero:
  assumes "x \<noteq> 0" "y \<noteq> 0"
  shows "\<exists>l. lcm_py x y = Inr l \<and> l \<noteq> 0 \<and> x dvd l \<and> y dvd l \<and>
           (0 < l \<longleftrightarrow> 0 < gcd_py x y)"
proof -
  let ?g = "gcd_py x y"
  have G: "0 < gcd x y" using assms by (simp add: gcd_pos_int)
  have ag: "\<bar>?g\<bar> = gcd x y" by (rule gcd_py_abs)
  then have g0: "?g \<noteq> 0" using G by auto
  have "lcm x y * gcd x y = normalize (x * y)" by (rule lcm_gcd_prod)
  then have prod: "\<bar>x * y\<bar> = lcm x y * gcd x y" by simp
  have L: "0 < lcm x y" using assms by (simp add: lcm_pos_int)
  have Gn: "gcd x y \<noteq> 0" using G by simp
  have l: "\<bar>x * y\<bar> div ?g = (if 0 < ?g then lcm x y else - lcm x y)"
  proof (cases "0 < ?g")
    case True
    then have geq: "?g = gcd x y" using ag by simp
    have "\<bar>x * y\<bar> div ?g = lcm x y * gcd x y div gcd x y" by (simp only: prod geq)
    also have "\<dots> = lcm x y" using Gn by (rule nonzero_mult_div_cancel_right)
    finally show ?thesis using True by simp
  next
    case False
    then have geq: "?g = - gcd x y" using ag g0 by linarith
    have "\<bar>x * y\<bar> div ?g = lcm x y * gcd x y div (- gcd x y)" by (simp only: prod geq)
    also have "\<dots> = (- lcm x y) * gcd x y div gcd x y" by (simp only: div_minus_right mult_minus_left)
    also have "\<dots> = - lcm x y" using Gn by (rule nonzero_mult_div_cancel_right)
    finally show ?thesis using False by simp
  qed
  show ?thesis
    using g0 l L by (auto simp: lcm_py_def py_div_def)
qed

lemma Ratio_eq_nonzero:
  assumes "den x \<noteq> 0" "den y \<noteq> 0"
  shows "Ratio_eq x y = Inr (num x * den y = num y * den x)"
proof -
  from lcm_py_nonzero [OF assms] obtain l where
    l: "lcm_py (den x) (den y) = Inr l" "l \<noteq> 0" "den x dvd l" "den y dvd l" by blast
  from l(3) obtain u where u: "l = den x * u" ..
  from l(4) obtain w where w: "l = den y * w" ..
  have u0: "u \<noteq> 0" and w0: "w \<noteq> 0" using l(2) u w by auto
  have dx: "num x * l div den x = num x * u" using assms(1) u by simp
  have dy: "num y * l div den y = num y * w" using assms(2) w by simp
  have "(num x * u = num y * w) \<longleftrightarrow> (num x * den y = num y * den x)"
  proof -
    have "(num x * u = num y * w) \<longleftrightarrow> (num x * u * (den x * den y) = num y * w * (den x * den y))"
      using assms by simp
    also have "num x * u * (den x * den y) = (num x * den y) * l" by (simp add: u algebra_simps)
    also have "num y * w * (den x * den y) = (num y * den x) * l" by (simp add: w algebra_simps)
    also have "((num x * den y) * l = (num y * den x) * l) \<longleftrightarrow> (num x * den y = num y * den x)"
      using l(2) by simp
    finally show ?thesis .
  qed
  then show ?thesis using l(1) assms dx dy by (simp add: Ratio_eq_def py_div_def)
qed

lemma Ratio_lt_nonzero:
  assumes "den x \<noteq> 0" "den y \<noteq> 0"
  shows "Ratio_lt x y
           = Inr (if 0 < gcd_py (den x) (den y) then rval x < rval y else rval y < rval x)"
proof -
  from lcm_py_nonzero [OF assms] obtain l where
    l: "lcm_py (den x) (den y) = Inr l" "l \<noteq> 0" "den x dvd l" "den y dvd l"
       "0 < l \<longleftrightarrow> 0 < gcd_py (den x) (den y)" by blast
  have dx: "num x * l div den x = num x * (l div den x)" using l(3) by (simp add: div_mult_swap)
  have dy: "num y * l div den y = num y * (l div den y)" using l(4) by (simp add: div_mult_swap)
  have rx: "real_of_int (num x * (l div den x)) = rval x * real_of_int l"
    using assms(1) l(3) by (simp add: rval_def real_of_int_div)
  have ry: "real_of_int (num y * (l div den y)) = rval y * real_of_int l"
    using assms(2) l(4) by (simp add: rval_def real_of_int_div)
  have "(num x * (l div den x) < num y * (l div den y))
        \<longleftrightarrow> (rval x * real_of_int l < rval y * real_of_int l)"
    by (simp only: rx [symmetric] ry [symmetric] of_int_less_iff)
  also have "\<dots> \<longleftrightarrow> (if 0 < l then rval x < rval y else rval y < rval x)"
    using l(2) by (simp add: mult_less_cancel_right)
  finally show ?thesis using l(1,5) assms dx dy by (simp add: Ratio_lt_def py_div_def)
qed

subsection \<open>Printed digits\<close>

lemma digit_val_nth: "k < 10 \<Longrightarrow> digit_val (''0123456789'' ! k) = int k"
proof -
  assume "k < 10"
  then have "k \<in> {0, 1, 2, 3, 4, 5, 6, 7, 8, 9}" by auto
  then show ?thesis by (auto simp: digit_val_def)
qed

lemma digit_not_point: "k < 10 \<Longrightarrow> ''0123456789'' ! k \<noteq> CHR ''.''"
proof -
  assume "k < 10"
  then have "k \<in> {0, 1, 2, 3, 4, 5, 6, 7, 8, 9}" by auto
  then show ?thesis by auto
qed

lemma int_of_str_snoc: "int_of_str (xs @ [c]) = 10 * int_of_str xs + digit_val c"
  by (simp add: int_of_str_def)

lemma str_digits_value:
  "0 \<le> v \<Longrightarrow> int_of_str (str_digits v) = v \<and> CHR ''.'' \<notin> set (str_digits v)"
proof (induction v rule: str_digits.induct)
  case (1 v)
  show ?case
  proof (cases "v < 10")
    case True
    then have k: "nat v < 10" using "1.prems" by simp
    have "str_digits v = [''0123456789'' ! nat v]" using True by (subst str_digits.simps) simp
    then show ?thesis
      using digit_val_nth [OF k] digit_not_point [OF k] "1.prems"
      by (simp add: int_of_str_def)
  next
    case False
    have k: "nat (v mod 10) < 10" by simp
    have m: "0 \<le> v mod 10" by simp
    have e: "str_digits v = str_digits (v div 10) @ [''0123456789'' ! nat (v mod 10)]"
      using False by (subst str_digits.simps) simp
    have "0 \<le> v div 10" using "1.prems" by simp
    with "1.IH" False have IH: "int_of_str (str_digits (v div 10)) = v div 10"
      "CHR ''.'' \<notin> set (str_digits (v div 10))" by simp_all
    have "int_of_str (str_digits v) = 10 * (v div 10) + v mod 10"
      using digit_val_nth [OF k] IH(1) m by (simp add: e int_of_str_snoc)
    then show ?thesis using IH(2) digit_not_point [OF k] by (simp add: e)
  qed
qed

lemma digits_value_render:
  assumes "0 \<le> v"
  shows "digits_value (render d (str_int v)) = v"
proof -
  let ?s = "str_digits v"
  let ?k = "slice_index ?s (- d)"
  have "filter (\<lambda>c. c \<noteq> CHR ''.'') (take ?k ?s @ ''.'' @ drop ?k ?s)
          = filter (\<lambda>c. c \<noteq> CHR ''.'') (take ?k ?s) @ filter (\<lambda>c. c \<noteq> CHR ''.'') (drop ?k ?s)"
    by simp
  also have "\<dots> = filter (\<lambda>c. c \<noteq> CHR ''.'') (take ?k ?s @ drop ?k ?s)"
    by (simp only: filter_append)
  also have "\<dots> = filter (\<lambda>c. c \<noteq> CHR ''.'') ?s" by (simp only: append_take_drop_id)
  also have "\<dots> = ?s" using str_digits_value [OF assms] by (auto simp: filter_id_conv)
  finally show ?thesis
    using assms str_digits_value [OF assms]
    by (simp add: digits_value_def render_def slice_to_def slice_from_def str_int_def)
qed

lemma cval_cf_list_pos:
  assumes seed: "1 \<le> a0" "a0\<^sup>2 < n" "n < (a0 + 1)\<^sup>2" "a0 < 2 ^ 52"
  shows "1 \<le> cval (cf_list n a0 k)"
proof -
  note b = cf_list_bounds [OF seed, of k]
  have "\<forall>x\<in>set (butlast (cf_list n a0 k)). 1 \<le> x" using b(2) by (auto dest: in_set_butlastD)
  moreover have "1 \<le> real_of_int (last (cf_list n a0 k))" using b by simp
  ultimately show ?thesis unfolding cval_def by (rule cf_app_ge1)
qed

section \<open>The store and the values agree\<close>

lemma Ratio_init_eta: "Ratio_init (num r) (den r) = r"
  by (simp add: Ratio_init_def)

lemma fold_conv_st_sim:
  assumes "c < length h"
  shows "(case fold_conv xs (h ! c) of
            Inl e \<Rightarrow> fold_conv_st xs c h = Inl e
          | Inr r \<Rightarrow> (\<exists>c' h'. fold_conv_st xs c h = Inr (c', h') \<and> c' < length h' \<and>
                         h' ! c' = r \<and> c \<le> c' \<and> length h \<le> length h' \<and>
                         (\<forall>q<length h. q \<noteq> c \<longrightarrow> h' ! q = h ! q)))"
  using assms
proof (induction xs arbitrary: c h)
  case Nil
  then show ?case by simp
next
  case (Cons x xs)
  let ?h1 = "rec_st c h @ [Ratio_init x 1]"
  have l: "length (rec_st c h) = length h" by (simp add: rec_st_def)
  have rc: "?h1 ! c = Ratio_rec (h ! c)" using Cons.prems by (simp add: rec_st_def nth_append)
  have rt: "?h1 ! length h = Ratio_init x 1" using l by (simp add: nth_append)
  show ?case
  proof (cases "Ratio_add (Ratio_rec (h ! c)) (Ratio_init x 1)")
    case (Inl e)
    then show ?thesis by (simp add: Ratio_new_def add_st_def l rc rt)
  next
    case (Inr r)
    let ?h2 = "?h1 @ [r]"
    let ?c' = "Suc (length h)"
    have step: "fold_conv_st (x # xs) c h = fold_conv_st xs ?c' ?h2"
      using Inr by (simp add: Ratio_new_def add_st_def l rc rt Ratio_init_eta)
    have c': "?c' < length ?h2" by (simp add: l)
    have v: "?h2 ! ?c' = r" using l by (simp add: nth_append)
    have old: "\<forall>q<length h. q \<noteq> c \<longrightarrow> ?h2 ! q = h ! q"
      by (simp add: nth_append l rec_st_def)
    from Cons.IH [OF c'] have IH:
      "case fold_conv xs r of
         Inl e \<Rightarrow> fold_conv_st xs ?c' ?h2 = Inl e
       | Inr r' \<Rightarrow> (\<exists>c'' h'. fold_conv_st xs ?c' ?h2 = Inr (c'', h') \<and> c'' < length h' \<and>
                       h' ! c'' = r' \<and> ?c' \<le> c'' \<and> length ?h2 \<le> length h' \<and>
                       (\<forall>q<length ?h2. q \<noteq> ?c' \<longrightarrow> h' ! q = ?h2 ! q))"
      by (simp only: v)
    show ?thesis
    proof (cases "fold_conv xs r")
      case (Inl e)
      with IH Inr step show ?thesis by simp
    next
      case r': (Inr r')
      with IH obtain c'' h' where
        f: "fold_conv_st xs ?c' ?h2 = Inr (c'', h')" "c'' < length h'" "h' ! c'' = r'"
           "?c' \<le> c''" "length ?h2 \<le> length h'"
           "\<forall>q<length ?h2. q \<noteq> ?c' \<longrightarrow> h' ! q = ?h2 ! q" by auto
      have "\<forall>q<length h. q \<noteq> c \<longrightarrow> h' ! q = h ! q"
      proof (intro allI impI)
        fix q assume q: "q < length h" "q \<noteq> c"
        then have "h' ! q = ?h2 ! q" using f(6) l by simp
        with old q show "h' ! q = h ! q" by simp
      qed
      moreover have "c \<le> c''" using f(4) Cons.prems by simp
      moreover have "length h \<le> length h'" using f(5) l by simp
      ultimately show ?thesis using Inr r' step f by simp
    qed
  qed
qed

lemma convergent_st_sim:
  "(case convergent xs of
      Inl e \<Rightarrow> convergent_st xs h = Inl e
    | Inr r \<Rightarrow> (\<exists>c h'. convergent_st xs h = Inr (c, h') \<and> c < length h' \<and> h' ! c = r \<and>
                   length h \<le> c \<and> length h \<le> length h' \<and> (\<forall>q<length h. h' ! q = h ! q)))"
proof -
  let ?h1 = "h @ [Ratio_init (last xs) 1]"
  have c: "length h < length ?h1" by simp
  have v: "?h1 ! length h = Ratio_init (last xs) 1" by simp
  from fold_conv_st_sim [OF c, of "rev (butlast xs)"] have s:
    "case fold_conv (rev (butlast xs)) (Ratio_init (last xs) 1) of
       Inl e \<Rightarrow> fold_conv_st (rev (butlast xs)) (length h) ?h1 = Inl e
     | Inr r \<Rightarrow> (\<exists>c' h'. fold_conv_st (rev (butlast xs)) (length h) ?h1 = Inr (c', h') \<and>
                    c' < length h' \<and> h' ! c' = r \<and> length h \<le> c' \<and> length ?h1 \<le> length h' \<and>
                    (\<forall>q<length ?h1. q \<noteq> length h \<longrightarrow> h' ! q = ?h1 ! q))"
    by (simp only: v)
  have e: "convergent_st xs h = fold_conv_st (rev (butlast xs)) (length h) ?h1"
    by (simp add: convergent_st_def Ratio_new_def)
  show ?thesis
  proof (cases "convergent xs")
    case (Inl e')
    with s e show ?thesis by (simp add: convergent_def)
  next
    case (Inr r)
    with s obtain c' h' where
      f: "fold_conv_st (rev (butlast xs)) (length h) ?h1 = Inr (c', h')" "c' < length h'"
         "h' ! c' = r" "length h \<le> c'" "length ?h1 \<le> length h'"
         "\<forall>q<length ?h1. q \<noteq> length h \<longrightarrow> h' ! q = ?h1 ! q"
      by (auto simp: convergent_def)
    have "\<forall>q<length h. h' ! q = h ! q"
    proof (intro allI impI)
      fix q assume q: "q < length h"
      then have "h' ! q = ?h1 ! q" using f(6) by simp
      with q show "h' ! q = h ! q" by (simp add: nth_append)
    qed
    moreover have "length h \<le> length h'" using f(5) by simp
    ultimately show ?thesis using Inr e f by simp
  qed
qed

lemma copy_st_props:
  assumes "c < length h"
  shows "copy_st c h = (length h, h @ [Ratio_init (num (h ! c)) (den (h ! c))])"
  using assms by (simp add: copy_st_def Ratio_new_def Ratio_init_def nth_append)

lemma sqrt_round_st_sim:
  "(case sqrt_round n (values_of s) of
      Inl e \<Rightarrow> sqrt_round_st n s = Inl e
    | Inr (t', r) \<Rightarrow>
        (\<exists>s' c. sqrt_round_st n s = Inr (s', c) \<and> c < length (ss_store s') \<and>
           ss_store s' ! c = r \<and> ss_pc s' = ss_pc s \<and>
           st_m t' = ss_m s' \<and> st_d t' = ss_d s' \<and> st_a t' = ss_a s' \<and> st_pc t' = st_pc (values_of s) \<and>
           length (ss_store s) \<le> c \<and> length (ss_store s) \<le> length (ss_store s') \<and>
           (\<forall>q<length (ss_store s). ss_store s' ! q = ss_store s ! q)))"
proof -
  let ?m' = "ss_d s * last (ss_a s) - ss_m s"
  show ?thesis
  proof (cases "py_div (n - ?m' ^ 2) (ss_d s)")
    case (Inl e)
    then show ?thesis by (simp add: sqrt_round_def sqrt_round_st_def values_of_def)
  next
    case d': (Inr d')
    show ?thesis
    proof (cases "py_div (hd (ss_a s) + ?m') d'")
      case (Inl e)
      with d' show ?thesis by (simp add: sqrt_round_def sqrt_round_st_def values_of_def)
    next
      case q: (Inr q)
      show ?thesis
      proof (cases "int_floor q")
        case (Inl e)
        with d' q show ?thesis by (simp add: sqrt_round_def sqrt_round_st_def values_of_def)
      next
        case t: (Inr t)
        note cs = convergent_st_sim [of "ss_a s @ [t]" "ss_store s"]
        show ?thesis
        proof (cases "convergent (ss_a s @ [t])")
          case (Inl e)
          with cs d' q t show ?thesis
            by (simp add: sqrt_round_def sqrt_round_st_def values_of_def)
        next
          case (Inr r)
          with cs obtain c h' where
            f: "convergent_st (ss_a s @ [t]) (ss_store s) = Inr (c, h')" "c < length h'"
               "h' ! c = r" "length (ss_store s) \<le> c" "length (ss_store s) \<le> length h'"
               "\<forall>q<length (ss_store s). h' ! q = ss_store s ! q" by auto
          show ?thesis
            using d' q t Inr f
            by (simp add: sqrt_round_def sqrt_round_st_def values_of_def)
        qed
      qed
    qed
  qed
qed

lemma converged_st_sim:
  assumes "c < length h" "case pc of None \<Rightarrow> True | Some p \<Rightarrow> p < length h"
  shows "(case converged dig (h ! c) (map_option (\<lambda>p. h ! p) pc) of
            Inl e \<Rightarrow> converged_st dig c pc h = Inl e
          | Inr b \<Rightarrow> (\<exists>h'. converged_st dig c pc h = Inr (b, h') \<and> length h \<le> length h' \<and>
                         (\<forall>q<length h. h' ! q = h ! q)))"
proof (cases pc)
  case None
  then show ?thesis by (simp add: converged_def converged_st_def)
next
  case (Some p)
  with assms have p: "p < length h" by simp
  let ?t = "Ratio_init (- num (h ! p)) (den (h ! p))"
  let ?h1 = "h @ [?t]"
  have s1: "sub_st c p h =
            (case Ratio_sub (h ! c) (h ! p) of Inl e \<Rightarrow> Inl e
             | Inr r \<Rightarrow> Inr (Suc (length h), ?h1 @ [r]))"
    using assms(1)
    by (simp add: sub_st_def add_st_def Ratio_new_def Ratio_sub_def nth_append Ratio_init_eta
        split: sum.splits)
  show ?thesis
  proof (cases "Ratio_sub (h ! c) (h ! p)")
    case (Inl e)
    with s1 Some show ?thesis by (simp add: converged_def converged_st_def)
  next
    case (Inr df)
    let ?h2 = "?h1 @ [df]"
    let ?h3 = "?h2 @ [Ratio_abs df] @ [tolerance dig]"
    have a: "abs_st (Suc (length h)) ?h2 = (Suc (Suc (length h)), ?h2 @ [Ratio_abs df])"
      by (simp add: abs_st_def Ratio_new_def Ratio_abs_def nth_append)
    have rd: "?h3 ! Suc (Suc (length h)) = Ratio_abs df"
      "?h3 ! Suc (Suc (Suc (length h))) = tolerance dig"
      by (simp_all add: nth_append)
    have old: "\<forall>q<length h. ?h3 ! q = h ! q" by (simp add: nth_append)
    have cst: "converged_st dig c pc h =
               (case Ratio_lt (Ratio_abs df) (tolerance dig) of Inl e \<Rightarrow> Inl e
                | Inr b \<Rightarrow> Inr (b, ?h3))"
      using Some s1 Inr a rd
      by (simp add: converged_st_def Ratio_new_def tolerance_def Let_def split: sum.splits)
    show ?thesis
      using Some Inr cst old
      by (cases "Ratio_lt (Ratio_abs df) (tolerance dig)") (simp_all add: converged_def)
  qed
qed

lemma sqrt_loop_unfold: "sqrt_loop n dig s = loop_body sqrt_loop n dig s"
  by (subst sqrt_loop.simps) (simp add: loop_body_def)

lemma sqrt_loop_st_unfold: "sqrt_loop_st n dig s = loop_body_st sqrt_loop_st n dig s"
  by (subst sqrt_loop_st.simps) (simp add: loop_body_st_def)

lemma step_sim:
  assumes val: "pc_allocated s"
  shows "(\<exists>r. (\<forall>F. loop_body_st F n dig s = Some r) \<and>
              (\<forall>G. loop_body G n dig (values_of s) = Some r)) \<or>
         (\<exists>s2. pc_allocated s2 \<and> (\<forall>F. loop_body_st F n dig s = F n dig s2) \<and>
               (\<forall>G. loop_body G n dig (values_of s) = G n dig (values_of s2)))"
proof (cases "sqrt_round n (values_of s)")
  case (Inl e)
  with sqrt_round_st_sim [of n s] have "sqrt_round_st n s = Inl e" by simp
  with Inl show ?thesis by (simp add: loop_body_def loop_body_st_def)
next
  case (Inr tr)
  obtain t' r where tr: "tr = (t', r)" by (cases tr)
  with Inr sqrt_round_st_sim [of n s] obtain s' c where
    f: "sqrt_round_st n s = Inr (s', c)" "c < length (ss_store s')" "ss_store s' ! c = r"
       "ss_pc s' = ss_pc s" "st_m t' = ss_m s'" "st_d t' = ss_d s'" "st_a t' = ss_a s'"
       "st_pc t' = st_pc (values_of s)" "length (ss_store s) \<le> length (ss_store s')"
       "\<forall>q<length (ss_store s). ss_store s' ! q = ss_store s ! q" by auto
  let ?h = "ss_store s'"
  have pcv: "case ss_pc s' of None \<Rightarrow> True | Some p \<Rightarrow> p < length ?h"
    using val f(4,9) by (auto simp: pc_allocated_def split: option.splits)
  have pce: "st_pc t' = map_option (\<lambda>p. ?h ! p) (ss_pc s')"
    using val f(4,8,10) by (auto simp: pc_allocated_def values_of_def split: option.splits)
  note cs = converged_st_sim [OF f(2) pcv, of dig, unfolded f(3) pce [symmetric]]
  show ?thesis
  proof (cases "converged dig r (st_pc t')")
    case (Inl e)
    with cs have "converged_st dig c (ss_pc s') ?h = Inl e" by simp
    with Inl Inr tr f(1) show ?thesis by (simp add: loop_body_def loop_body_st_def)
  next
    case b: (Inr b)
    with cs obtain h' where
      g: "converged_st dig c (ss_pc s') ?h = Inr (b, h')" "length ?h \<le> length h'"
         "\<forall>q<length ?h. h' ! q = ?h ! q" by auto
    have hc: "h' ! c = r" "c < length h'" using g(2,3) f(2,3) by auto
    show ?thesis
    proof (cases b)
      case True
      with b g Inr tr f(1) hc show ?thesis by (simp add: loop_body_def loop_body_st_def)
    next
      case False
      let ?s2 = "s'\<lparr>ss_pc := Some (length h'),
                     ss_store := h' @ [Ratio_init (num r) (den r)]\<rparr>"
      have cp: "copy_st c h' = (length h', h' @ [Ratio_init (num r) (den r)])"
        using copy_st_props [OF hc(2)] hc(1) by simp
      have v2: "values_of ?s2 = t'\<lparr>st_pc := Some (Ratio_init (num r) (den r))\<rparr>"
        using f(5,6,7) by (simp add: values_of_def)
      have "pc_allocated ?s2" by (simp add: pc_allocated_def)
      moreover have "\<forall>F. loop_body_st F n dig s = F n dig ?s2"
        using f(1) g(1) False cp by (simp add: loop_body_st_def)
      moreover have "\<forall>G. loop_body G n dig (values_of s) = G n dig (values_of ?s2)"
        using Inr tr b False v2 by (simp add: loop_body_def)
      ultimately show ?thesis by blast
    qed
  qed
qed

lemma loop_st_to_values:
  assumes "sqrt_loop_st n dig s = Some r"
  shows "pc_allocated s \<longrightarrow> sqrt_loop n dig (values_of s) = Some r"
proof (rule sqrt_loop_st.raw_induct
    [where P = "\<lambda>n dig s r. pc_allocated s \<longrightarrow> sqrt_loop n dig (values_of s) = Some r",
     OF _ assms])
  fix f n dig s r
  assume IH: "\<And>n dig s r. f n dig s = Some r \<Longrightarrow>
                pc_allocated s \<longrightarrow> sqrt_loop n dig (values_of s) = Some r"
  assume "(case sqrt_round_st n s of Inl e \<Rightarrow> Some (Inl e)
      | Inr (s', c) \<Rightarrow>
        (case converged_st dig c (ss_pc s') (ss_store s') of Inl e \<Rightarrow> Some (Inl e)
         | Inr (b, h) \<Rightarrow>
           if b then Some (Inr (h ! c))
           else (case copy_st c h of
                   (p, h') \<Rightarrow> f n dig (s'\<lparr>ss_pc := Some p, ss_store := h'\<rparr>)))) = Some r"
  then have eq: "loop_body_st f n dig s = Some r" by (simp add: loop_body_st_def)
  show "pc_allocated s \<longrightarrow> sqrt_loop n dig (values_of s) = Some r"
  proof
    assume val: "pc_allocated s"
    from step_sim [OF val, of n dig] show "sqrt_loop n dig (values_of s) = Some r"
    proof (elim disjE exE conjE)
      fix r'
      assume a: "\<forall>F. loop_body_st F n dig s = Some r'"
        and b: "\<forall>G. loop_body G n dig (values_of s) = Some r'"
      from a eq have "r' = r" by simp
      with b show ?thesis by (subst sqrt_loop_unfold) simp
    next
      fix s2
      assume v2: "pc_allocated s2"
        and a: "\<forall>F. loop_body_st F n dig s = F n dig s2"
        and b: "\<forall>G. loop_body G n dig (values_of s) = G n dig (values_of s2)"
      from a eq have "f n dig s2 = Some r" by simp
      from IH [OF this] v2 have "sqrt_loop n dig (values_of s2) = Some r" by simp
      with b show ?thesis by (subst sqrt_loop_unfold) simp
    qed
  qed
qed

lemma loop_values_to_st:
  assumes "sqrt_loop n dig t = Some r"
  shows "\<forall>s. pc_allocated s \<and> values_of s = t \<longrightarrow> sqrt_loop_st n dig s = Some r"
proof (rule sqrt_loop.raw_induct
    [where P = "\<lambda>n dig t r. \<forall>s. pc_allocated s \<and> values_of s = t
                  \<longrightarrow> sqrt_loop_st n dig s = Some r",
     OF _ assms])
  fix g n dig t r
  assume IH: "\<And>n dig t r. g n dig t = Some r \<Longrightarrow>
                \<forall>s. pc_allocated s \<and> values_of s = t \<longrightarrow> sqrt_loop_st n dig s = Some r"
  assume "(case sqrt_round n t of Inl e \<Rightarrow> Some (Inl e)
      | Inr (s', c) \<Rightarrow>
        (case converged dig c (st_pc s') of Inl e \<Rightarrow> Some (Inl e)
         | Inr b \<Rightarrow>
           if b then Some (Inr c)
           else g n dig (s'\<lparr>st_pc := Some (Ratio_init (num c) (den c))\<rparr>))) = Some r"
  then have eq: "loop_body g n dig t = Some r" by (simp add: loop_body_def)
  show "\<forall>s. pc_allocated s \<and> values_of s = t \<longrightarrow> sqrt_loop_st n dig s = Some r"
  proof (intro allI impI, elim conjE)
    fix s
    assume val: "pc_allocated s" and t: "values_of s = t"
    from step_sim [OF val, of n dig] show "sqrt_loop_st n dig s = Some r"
    proof (elim disjE exE conjE)
      fix r'
      assume a: "\<forall>F. loop_body_st F n dig s = Some r'"
        and b: "\<forall>G. loop_body G n dig (values_of s) = Some r'"
      from b eq t have "r' = r" by simp
      with a show ?thesis by (subst sqrt_loop_st_unfold) simp
    next
      fix s2
      assume v2: "pc_allocated s2"
        and a: "\<forall>F. loop_body_st F n dig s = F n dig s2"
        and b: "\<forall>G. loop_body G n dig (values_of s) = G n dig (values_of s2)"
      from b eq t have "g n dig (values_of s2) = Some r" by simp
      from IH [OF this] v2 have "sqrt_loop_st n dig s2 = Some r" by simp
      with a show ?thesis by (subst sqrt_loop_st_unfold) simp
    qed
  qed
qed

lemma sqrt_loop_st_eq:
  assumes "pc_allocated s"
  shows "sqrt_loop_st n dig s = sqrt_loop n dig (values_of s)"
proof (cases "sqrt_loop_st n dig s")
  case None
  show ?thesis
  proof (cases "sqrt_loop n dig (values_of s)")
    case n2: None
    with None show ?thesis by simp
  next
    case (Some r)
    from loop_values_to_st [OF this] assms have "sqrt_loop_st n dig s = Some r" by simp
    with None show ?thesis by simp
  qed
next
  case (Some r)
  from loop_st_to_values [OF this] assms show ?thesis using Some by simp
qed

section \<open>Concrete runs\<close>

text \<open>
  C2. \<open>precSqrt(2, 10)\<close> returns \<open>1.4142135623\<close>: the integer part, the point and the
  first ten fractional digits of the square root of 2, so the string starts with
  \<open>1.4142135623\<close>.
\<close>

theorem precSqrt_2_10: "precSqrt 2 10 = Some (Inr ''1.4142135623'')"
  by code_simp

section \<open>Ratio: reciprocal and comparisons\<close>

text \<open>
  C8, as the code has it. \<open>rec\<close> swaps numerator and denominator and always returns:
  it has no check. When the numerator was zero it leaves a denominator of zero, and it
  is the next addition to that value that raises ZeroDivisionError.
\<close>

theorem Ratio_rec_swaps:
  "Ratio_rec self = \<lparr>num = den self, den = num self\<rparr> \<and>
   (num self = 0 \<longrightarrow> Ratio_add (Ratio_rec self) other = Inl ZeroDivisionError)"
proof -
  have swap: "Ratio_rec self = \<lparr>num = den self, den = num self\<rparr>"
    by (simp add: Ratio_rec_def)
  have "Ratio_add (Ratio_rec self) other = Inl ZeroDivisionError" if z: "num self = 0"
  proof (cases "den other = 0")
    case True
    have "gcd_py 0 0 = 0" by (subst gcd_py.simps) simp
    with True z show ?thesis
      by (simp add: Ratio_add_def Ratio_rec_def lcm_py_def py_div_def)
  next
    case False
    have "gcd_py 0 (den other) = gcd_py (den other) 0"
      using False by (subst gcd_py.simps) simp
    also have "\<dots> = den other" by (subst gcd_py.simps) simp
    finally show ?thesis using False z
      by (simp add: Ratio_add_def Ratio_rec_def lcm_py_def py_div_def)
  qed
  with swap show ?thesis by blast
qed

theorem Ratio_rec_swaps_witness:
  "Ratio_rec (Ratio_init 0 1) = \<lparr>num = 1, den = 0\<rparr> \<and>
   Ratio_add (Ratio_rec (Ratio_init 0 1)) (Ratio_init 5 1) = Inl ZeroDivisionError"
  using Ratio_rec_swaps [of "Ratio_init 0 1" "Ratio_init 5 1"]
  by (simp add: Ratio_init_def Ratio_rec_def)

text \<open>
  C8, as the spec states it, fails: the reciprocal of \<open>0/1\<close> does not fail, it returns
  \<open>1/0\<close>.
\<close>

theorem Ratio_rec_zero_returns:
  "Ratio_rec (Ratio_init 0 1) = Ratio_init 1 0"
  by (simp add: Ratio_rec_def Ratio_init_def)

text \<open>
  C9 at the input \<open>Ratio(1, 3) < Ratio(1, -3)\<close>: \<open>gcd(3, -3)\<close> is \<open>-3\<close>, so the
  common denominator is \<open>-3\<close>, both sides are scaled by a negative number and the
  comparison comes out reversed: \<open>__lt__\<close> answers True although 1/3 is not less
  than -1/3.
\<close>

theorem Ratio_lt_negative_lcd:
  "Ratio_lt (Ratio_init 1 3) (Ratio_init 1 (- 3)) = Inr True \<and>
   \<not> rval (Ratio_init 1 3) < rval (Ratio_init 1 (- 3))"
proof -
  have a: "Ratio_lt (Ratio_init 1 3) (Ratio_init 1 (- 3)) = Inr True" by code_simp
  have b: "\<not> rval (Ratio_init 1 3) < rval (Ratio_init 1 (- 3))"
    by (simp add: rval_def Ratio_init_def)
  from a b show ?thesis ..
qed

section \<open>precSqrt: the arguments it accepts\<close>

text \<open>
  C6, as the code has it. The rejection of \<open>dig < 1\<close> is the first test of \<open>main\<close>,
  which prints its error message and asks again without calling \<open>precSqrt\<close>.
\<close>

theorem main_rejects_small_dig:
  "dig < 1 \<Longrightarrow>
   main_pass n dig = Some (Inr ''Error: number of digits of precision must be at least 1.'')"
  by (simp add: main_pass_def)

theorem main_rejects_small_dig_witness:
  "(0::int) < 1 \<and>
   main_pass 2 0 = Some (Inr ''Error: number of digits of precision must be at least 1.'')"
  using main_rejects_small_dig [of 0 2] by simp

text \<open>
  C6, as the spec states it, fails: \<open>precSqrt\<close> itself has no test of \<open>dig\<close>. With
  \<open>dig = 0\<close> the tolerance is 1/10, the loop stops at 17/12 and the slices
  \<open>s[:-0]\<close> (empty) and \<open>s[-0:]\<close> (all of \<open>s\<close>) put the point first.
\<close>

theorem precSqrt_2_0_returns: "precSqrt 2 0 = Some (Inr ''.1'')"
  by code_simp

text \<open>
  C5, as the code has it. \<open>precSqrt\<close> has no test of the sign of \<open>n\<close>: a negative
  \<open>n\<close> fails in the first call of \<open>math.sqrt\<close>, before any string is built. The
  failure is ValueError (math domain error) as long as \<open>n\<close> converts to a double,
  and OverflowError (from the conversion) from \<open>- (2 ^ 1024 - 2 ^ 970)\<close> downwards.
\<close>

theorem precSqrt_negative_fails:
  "n < 0 \<Longrightarrow>
   precSqrt n dig = Some (Inl (if 2 ^ 1024 - 2 ^ 970 \<le> - n then OverflowError else ValueError))"
  using math_sqrt_neg [of n] by (simp add: precSqrt_def)

theorem precSqrt_negative_fails_witness:
  "(- 1 :: int) < 0 \<and> precSqrt (- 1) 5 = Some (Inl ValueError)"
  using precSqrt_negative_fails [of "- 1" 5] by simp

text \<open>
  C5, as the spec states it, fails for a negative \<open>n\<close> beyond the range of doubles:
  \<open>precSqrt(-2 ** 1024, 5)\<close> fails with OverflowError, not with the error of a
  negative radicand.
\<close>

theorem precSqrt_huge_negative_overflows:
  "precSqrt (- (2 ^ 1024)) 5 = Some (Inl OverflowError) \<and>
   precSqrt (- (2 ^ 1024)) 5 \<noteq> precSqrt (- 1) 5"
proof -
  have a: "precSqrt (- (2 ^ 1024)) 5 = Some (Inl OverflowError)" by code_simp
  have b: "precSqrt (- 1) 5 = Some (Inl ValueError)" by code_simp
  show ?thesis unfolding a b by simp
qed

section \<open>precSqrt: perfect squares\<close>

text \<open>
  The test for a perfect square compares the double \<open>sqrt(n)\<close> with its floor, so it
  is exact as far as doubles are: for every \<open>k\<close> with \<open>0 \<le> k < 2 ^ 53\<close>,
  \<open>precSqrt(k * k, dig)\<close> returns \<open>str(k)\<close>, for any \<open>dig\<close>; for instance
  \<open>precSqrt(4, 5)\<close> returns \<open>2\<close>.
\<close>

lemma precSqrt_square_below_2_53:
  assumes "0 \<le> k" "k < 2 ^ 53"
  shows "precSqrt (k * k) dig = Some (Inr (str_int k))"
proof -
  from math_sqrt_square [OF assms] obtain x where
    "math_sqrt (k * k) = Inr x" "int_of_double (floor_double x) = k" "double_eq_int x k" by blast
  then show ?thesis by (simp add: precSqrt_def)
qed

lemma precSqrt_4_5: "precSqrt 4 5 = Some (Inr ''2'')"
proof -
  have s: "str_int 2 = ''2''" by code_simp
  show ?thesis using precSqrt_square_below_2_53 [of 2 5] by (simp add: s)
qed

text \<open>
  C1 at the input \<open>precSqrt((2 ^ 53 + 1) ^ 2, 5)\<close>: the radicand is a perfect square
  with root \<open>2 ^ 53 + 1 = 9007199254740993\<close>, but its conversion to a double rounds to
  \<open>2 ^ 106 + 2 ^ 54\<close>, whose double square root is \<open>2 ^ 53\<close>, an integer; the test
  \<open>sqrt(n) == a[0]\<close> succeeds and \<open>precSqrt\<close> returns \<open>9007199254740992\<close>, which is
  not the decimal string of the root.
\<close>

theorem precSqrt_large_square_wrong:
  "precSqrt ((2 ^ 53 + 1) * (2 ^ 53 + 1)) 5 = Some (Inr ''9007199254740992'') \<and>
   str_int (2 ^ 53 + 1) = ''9007199254740993''"
proof -
  have a: "precSqrt ((2 ^ 53 + 1) * (2 ^ 53 + 1)) 5 = Some (Inr ''9007199254740992'')"
    by code_simp
  have b: "str_int (2 ^ 53 + 1) = ''9007199254740993''" by code_simp
  from a b show ?thesis ..
qed

section \<open>precSqrt: the loop\<close>

text \<open>
  C4. For \<open>n \<ge> 0\<close> not a perfect square and \<open>dig \<ge> 1\<close>: \<open>precSqrt\<close> returns (the
  loop cannot run forever); whenever the loop is entered, that is when \<open>sqrt(n)\<close> is
  not equal to its floor \<open>a0\<close>, it is left by the \<open>break\<close> of the tolerance test, with
  no exception raised in any round; and the loop is entered for every such
  \<open>n < 2 ^ 52\<close>. (Beyond, the double \<open>sqrt(n)\<close> can be an integer or the conversion
  can overflow, and then the loop is not reached.)
\<close>

theorem precSqrt_loop_terminates:
  assumes "0 \<le> n" "\<forall>k. k * k \<noteq> n" "1 \<le> dig"
  shows "(\<exists>r. precSqrt n dig = Some r) \<and>
         (\<forall>x. math_sqrt n = Inr x \<and> \<not> double_eq_int x (int_of_double (floor_double x)) \<longrightarrow>
              (\<exists>c. sqrt_loop n dig (init_state (int_of_double (floor_double x))) = Some (Inr c))) \<and>
         (n < 2 ^ 52 \<longrightarrow>
              (\<exists>x. math_sqrt n = Inr x \<and> \<not> double_eq_int x (int_of_double (floor_double x))))"
proof (intro conjI allI impI)
  show "\<exists>r. precSqrt n dig = Some r" by (rule precSqrt_total)
next
  fix x
  assume "math_sqrt n = Inr x \<and> \<not> double_eq_int x (int_of_double (floor_double x))"
  then have ms: "math_sqrt n = Inr x"
    and ni: "\<not> double_eq_int x (int_of_double (floor_double x))" by simp_all
  from loop_terminates_seed [OF seed_exact [OF ms ni], of dig]
  show "\<exists>c. sqrt_loop n dig (init_state (int_of_double (floor_double x))) = Some (Inr c)"
    by blast
next
  assume "n < 2 ^ 52"
  with assms show "\<exists>x. math_sqrt n = Inr x \<and> \<not> double_eq_int x (int_of_double (floor_double x))"
    by (intro general_path_small) auto
qed

theorem precSqrt_loop_terminates_witness:
  "(\<exists>r. precSqrt 2 1 = Some r) \<and> (\<exists>c. sqrt_loop 2 1 (init_state 1) = Some (Inr c))"
proof -
  have ns: "\<forall>k::int. k * k \<noteq> 2"
  proof
    fix k :: int
    show "k * k \<noteq> 2"
    proof (cases "\<bar>k\<bar> \<le> 1")
      case True
      then have "\<bar>k\<bar> * \<bar>k\<bar> \<le> 1 * 1" by (intro mult_mono) auto
      then show ?thesis by (simp add: abs_mult_self_eq)
    next
      case False
      then have "2 * 2 \<le> \<bar>k\<bar> * \<bar>k\<bar>" by (intro mult_mono) auto
      then show ?thesis by (simp add: abs_mult_self_eq)
    qed
  qed
  have ms: "math_sqrt 2 = Inr (Dbl 6369051672525773 (- 52))" by code_simp
  have fl: "int_of_double (floor_double (Dbl 6369051672525773 (- 52))) = 1" by code_simp
  have ni: "\<not> double_eq_int (Dbl 6369051672525773 (- 52)) 1" by code_simp
  from precSqrt_loop_terminates [of 2 1, OF _ ns]
  have "(\<exists>r. precSqrt 2 1 = Some r) \<and>
        (\<forall>x. math_sqrt 2 = Inr x \<and> \<not> double_eq_int x (int_of_double (floor_double x)) \<longrightarrow>
             (\<exists>c. sqrt_loop 2 1 (init_state (int_of_double (floor_double x))) = Some (Inr c)))"
    by simp
  then show ?thesis using ms fl ni by auto
qed

text \<open>
  C7. On the general path (entered when \<open>sqrt(n)\<close> is not equal to its floor \<open>a0\<close>,
  for \<open>n \<ge> 0\<close>), after any number \<open>k\<close> of rounds the loop has raised no exception,
  and the division \<open>(n - m**2) / d\<close> of the next round is exact: \<open>d\<close> divides
  \<open>n - (d * a[-1] - m)\<^sup>2\<close>, the round returns, and its new \<open>d\<close> times the old one
  is the dividend, nothing being truncated. So the case of a division that does not
  come out even never arises in a run of \<open>precSqrt\<close>.
\<close>

theorem round_division_exact:
  assumes "0 \<le> n" "math_sqrt n = Inr x" "\<not> double_eq_int x (int_of_double (floor_double x))"
  shows "\<exists>s s' c. run_rounds n k (init_state (int_of_double (floor_double x))) = Inr s \<and>
           st_d s dvd n - (st_d s * last (st_a s) - st_m s)\<^sup>2 \<and>
           sqrt_round n s = Inr (s', c) \<and>
           st_m s' = st_d s * last (st_a s) - st_m s \<and>
           st_d s' * st_d s = n - (st_m s')\<^sup>2"
proof -
  let ?a0 = "int_of_double (floor_double x)"
  let ?s = "state_at n ?a0 k"
  note seed = seed_exact [OF assms(2,3)]
  note sa = state_at_run [OF seed]
  from sqrt_round_inv [OF seed sa(2) [of k]] obtain s' c where
    r: "sqrt_round n ?s = Inr (s', c)"
    and dv: "st_d ?s dvd n - (st_d ?s * last (st_a ?s) - st_m ?s)\<^sup>2" by blast
  note f = sqrt_round_fields [OF r]
  from dv have "(n - (st_d ?s * last (st_a ?s) - st_m ?s)\<^sup>2) div st_d ?s * st_d ?s
      = n - (st_d ?s * last (st_a ?s) - st_m ?s)\<^sup>2"
    by (rule dvd_div_mult_self)
  then have "st_d s' * st_d ?s = n - (st_m s')\<^sup>2" by (simp only: f(1) f(3))
  with sa(1) [of k] dv r f(1) show ?thesis by blast
qed

theorem round_division_exact_witness:
  "\<exists>s s' c. run_rounds 2 3 (init_state 1) = Inr s \<and>
        st_d s dvd 2 - (st_d s * last (st_a s) - st_m s)\<^sup>2 \<and>
        sqrt_round 2 s = Inr (s', c) \<and>
        st_m s' = st_d s * last (st_a s) - st_m s \<and>
        st_d s' * st_d s = 2 - (st_m s')\<^sup>2"
proof -
  have ms: "math_sqrt 2 = Inr (Dbl 6369051672525773 (- 52))" by code_simp
  have fl: "int_of_double (floor_double (Dbl 6369051672525773 (- 52))) = 1" by code_simp
  have ni: "\<not> double_eq_int (Dbl 6369051672525773 (- 52))
               (int_of_double (floor_double (Dbl 6369051672525773 (- 52))))" by code_simp
  from round_division_exact [of 2 "Dbl 6369051672525773 (- 52)" 3, OF _ ms ni]
  show ?thesis by (simp add: fl)
qed

section \<open>precSqrt: digits for two precisions\<close>

text \<open>
  C3, as the code has it. On the general path, for \<open>1 \<le> d1 < d2\<close>, both calls
  return. Read the digits of each result as an integer, the point left out: the integer
  of the \<open>d2\<close> result cut after \<open>d1\<close> fractional digits (its quotient by
  \<open>10 ^ (d2 - d1)\<close>) differs from the integer of the \<open>d1\<close> result by at most
  one: the first \<open>d1\<close> fractional digits agree up to one unit of the last of them.
\<close>

theorem digits_within_one_unit:
  assumes "0 \<le> n" "math_sqrt n = Inr x" "\<not> double_eq_int x (int_of_double (floor_double x))"
      and "1 \<le> d1" "d1 < d2"
  shows "\<exists>s1 s2. precSqrt n d1 = Some (Inr s1) \<and> precSqrt n d2 = Some (Inr s2) \<and>
           \<bar>digits_value s1 - digits_value s2 div 10 ^ nat (d2 - d1)\<bar> \<le> 1"
proof -
  let ?a0 = "int_of_double (floor_double x)"
  note seed = seed_exact [OF assms(2,3)]
  have d: "0 \<le> d1" using assms(4) by simp
  from precSqrt_general [OF assms(2,3), of d1] obtain K1 where
    K1: "stops_at n ?a0 d1 K1" "\<forall>j<K1. \<not> stops_at n ?a0 d1 j"
    and p1: "precSqrt n d1
       = Some (Inr (render d1 (str_int \<lfloor>cval (cf_list n ?a0 (Suc K1)) * 10 ^ nat d1\<rfloor>)))"
    by blast
  from precSqrt_general [OF assms(2,3), of d2] obtain K2 where
    K2: "stops_at n ?a0 d2 K2"
    and p2: "precSqrt n d2
       = Some (Inr (render d2 (str_int \<lfloor>cval (cf_list n ?a0 (Suc K2)) * 10 ^ nat d2\<rfloor>)))"
    by blast
  let ?v1 = "\<lfloor>cval (cf_list n ?a0 (Suc K1)) * 10 ^ nat d1\<rfloor>"
  let ?v2 = "\<lfloor>cval (cf_list n ?a0 (Suc K2)) * 10 ^ nat d2\<rfloor>"
  have "0 \<le> cval (cf_list n ?a0 (Suc K1)) * 10 ^ nat d1"
    using cval_cf_list_pos [OF seed, of "Suc K1"] by simp
  then have v1: "0 \<le> ?v1" by simp
  have "0 \<le> cval (cf_list n ?a0 (Suc K2)) * 10 ^ nat d2"
    using cval_cf_list_pos [OF seed, of "Suc K2"] by simp
  then have v2: "0 \<le> ?v2" by simp
  from digits_stable_seed [OF seed d assms(5) K1 K2]
  have "\<bar>digits_value (render d1 (str_int ?v1))
          - digits_value (render d2 (str_int ?v2)) div 10 ^ nat (d2 - d1)\<bar> \<le> 1"
    by (simp only: digits_value_render [OF v1] digits_value_render [OF v2])
  with p1 p2 show ?thesis by blast
qed

theorem digits_within_one_unit_witness:
  "\<exists>s1 s2. precSqrt 156 2 = Some (Inr s1) \<and> precSqrt 156 3 = Some (Inr s2) \<and>
           \<bar>digits_value s1 - digits_value s2 div 10 ^ nat (3 - 2)\<bar> \<le> 1"
proof -
  have ms: "math_sqrt 156 = Inr (Dbl 7031242664629130 (- 49))" by code_simp
  have ni: "\<not> double_eq_int (Dbl 7031242664629130 (- 49))
               (int_of_double (floor_double (Dbl 7031242664629130 (- 49))))" by code_simp
  from digits_within_one_unit [of 156 "Dbl 7031242664629130 (- 49)" 2 3, OF _ ms ni]
  show ?thesis by simp
qed

text \<open>
  C3, as the spec states it, fails: \<open>precSqrt(156, 2)\<close> returns \<open>12.49\<close> and
  \<open>precSqrt(156, 3)\<close> returns \<open>12.489\<close>, whose first two fractional digits are 48.
  (The root is 12.48999...; the two-digit run stops at the convergent 1249/100, which
  lies just above the root and is 12.49 exactly, the three-digit run at 30588/2449 =
  12.48999591..., just below it.)
\<close>

theorem digits_156_change:
  "precSqrt 156 2 = Some (Inr ''12.49'') \<and> precSqrt 156 3 = Some (Inr ''12.489'') \<and>
   take 2 (frac_digits ''12.489'') \<noteq> frac_digits ''12.49''"
proof -
  have a: "precSqrt 156 2 = Some (Inr ''12.49'')" by code_simp
  have b: "precSqrt 156 3 = Some (Inr ''12.489'')" by code_simp
  have c: "take 2 (frac_digits ''12.489'') \<noteq> frac_digits ''12.49''"
    by (simp add: frac_digits_def)
  from a b c show ?thesis by blast
qed

section \<open>precSqrt: the saved approximation\<close>

text \<open>
  C10. Let \<open>pc\<close> be saved from \<open>c\<close> at the end of a round (\<open>copy_st\<close>: a new object
  at address \<open>p\<close>, then the two field assignments), and let the next round run up to
  the new \<open>c\<close> at address \<open>c'\<close>. Then \<open>pc\<close> still refers to \<open>p\<close>, the object at \<open>p\<close>
  still has the numerator and denominator that \<open>c\<close> had when it was saved, in spite
  of every \<open>rec\<close> of the folding, and the tolerance test of that round is the test of
  the new \<open>c\<close> against exactly that saved value. This holds for any store and any
  round, so for every round of the loop; \<open>sqrt_loop_st_eq\<close> above is the same fact for
  whole runs.
\<close>

theorem pc_snapshot_unchanged:
  assumes "c < length h"
      and "copy_st c h = (p, h1)"
      and "sqrt_round_st n (s\<lparr>ss_pc := Some p, ss_store := h1\<rparr>) = Inr (s', c')"
  shows "ss_pc s' = Some p \<and>
         ss_store s' ! p = \<lparr>num = num (h ! c), den = den (h ! c)\<rparr> \<and>
         map_sum id fst (converged_st dig c' (ss_pc s') (ss_store s'))
           = converged dig (ss_store s' ! c') (Some \<lparr>num = num (h ! c), den = den (h ! c)\<rparr>)"
proof -
  let ?s1 = "s\<lparr>ss_pc := Some p, ss_store := h1\<rparr>"
  let ?v = "\<lparr>num = num (h ! c), den = den (h ! c)\<rparr>"
  from copy_st_props [OF assms(1)] assms(2)
  have p: "p = length h" and h1: "h1 = h @ [?v]" by (simp_all add: Ratio_init_def)
  have pv: "p < length h1" "h1 ! p = ?v" using p h1 by simp_all
  from sqrt_round_st_sim [of n ?s1] assms(3) have
    f: "c' < length (ss_store s')" "ss_pc s' = Some p" "length h1 \<le> length (ss_store s')"
       "\<forall>q<length h1. ss_store s' ! q = h1 ! q"
    by (auto split: sum.splits)
  have keep: "ss_store s' ! p = ?v" using f(4) pv by simp
  have pcv: "case ss_pc s' of None \<Rightarrow> True | Some q \<Rightarrow> q < length (ss_store s')"
    using f(2,3) pv(1) by simp
  from converged_st_sim [OF f(1) pcv, of dig]
  have "map_sum id fst (converged_st dig c' (ss_pc s') (ss_store s'))
          = converged dig (ss_store s' ! c') (map_option (\<lambda>q. ss_store s' ! q) (ss_pc s'))"
    by (auto split: sum.splits)
  with f(2) keep show ?thesis by simp
qed

theorem pc_snapshot_unchanged_witness:
  "copy_st 0 [\<lparr>num = 3, den = 2\<rparr>] = (1, [\<lparr>num = 3, den = 2\<rparr>, \<lparr>num = 3, den = 2\<rparr>]) \<and>
   (\<exists>s' c'. sqrt_round_st 2 \<lparr>ss_m = 1, ss_d = 1, ss_a = [1, 2], ss_pc = Some 1,
                 ss_store = [\<lparr>num = 3, den = 2\<rparr>, \<lparr>num = 3, den = 2\<rparr>]\<rparr> = Inr (s', c') \<and>
       ss_pc s' = Some 1 \<and> ss_store s' ! 1 = \<lparr>num = 3, den = 2\<rparr>)"
proof -
  let ?h = "[\<lparr>num = 3, den = 2\<rparr>]"
  let ?s = "\<lparr>ss_m = 1, ss_d = 1, ss_a = [1, 2], ss_pc = None, ss_store = ?h\<rparr>"
  let ?s' = "\<lparr>ss_m = 1, ss_d = 1, ss_a = [1, 2, 2], ss_pc = Some 1,
          ss_store = [\<lparr>num = 3, den = 2\<rparr>, \<lparr>num = 3, den = 2\<rparr>, \<lparr>num = 1, den = 2\<rparr>,
                      \<lparr>num = 2, den = 1\<rparr>, \<lparr>num = 2, den = 5\<rparr>, \<lparr>num = 1, den = 1\<rparr>,
                      \<lparr>num = 7, den = 5\<rparr>]\<rparr>"
  have a: "(0::nat) < length ?h" by simp
  have b: "copy_st 0 ?h = (1, [\<lparr>num = 3, den = 2\<rparr>, \<lparr>num = 3, den = 2\<rparr>])"
    by code_simp
  have c: "sqrt_round_st 2 (?s\<lparr>ss_pc := Some 1,
              ss_store := [\<lparr>num = 3, den = 2\<rparr>, \<lparr>num = 3, den = 2\<rparr>]\<rparr>) = Inr (?s', 6)"
    by code_simp
  from pc_snapshot_unchanged [OF a b c, of 1]
  have "ss_pc ?s' = Some 1 \<and> ss_store ?s' ! 1 = \<lparr>num = 3, den = 2\<rparr>" by simp
  with b c show ?thesis by (intro conjI exI [of _ ?s'] exI [of _ 6]) simp_all
qed

end
